theory Spec2Isabelle
  imports Main
begin

section \<open>Raptor++: the term model of rdf\_parser.hpp\<close>

text \<open>
  The header rdf\_parser.hpp wraps the C library raptor2. Strings of unsigned characters
  (\<open>unsigned_string\<close>) and \<open>std::string\<close> are both lists of 8-bit characters; the
  conversion \<open>to_std_string\<close> copies character by character through a back inserter.
\<close>

type_synonym unsigned_string = string

definition to_std_string :: "unsigned_string \<Rightarrow> string" where
  "to_std_string str = foldl (\<lambda>temp c. temp @ [c]) [] str"

text \<open>
  The exceptions of the program. Every \<open>throw\<close> of the two headers is a
  \<open>std::domain_error\<close> with a message; \<open>boost::get\<close> on a variant throws
  \<open>boost::bad_get\<close>; a visitor supplied by the user may throw anything.
\<close>

datatype error = domain_error string | bad_get | user_exception string

subsection \<open>What raptor2 hands to the program\<close>

text \<open>
  A \<open>raptor_uri*\<close> is either \<open>NULL\<close> or a uri whose text
  \<open>raptor_uri_as_string\<close> returns. A \<open>raptor_term\<close> holds a type tag (a C enum,
  hence an integer) and a union, which is read according to the tag; the three
  alternatives of the union are the three fields below. The values of the enum
  \<open>raptor_term_type\<close> are those of raptor2.h.
\<close>

type_synonym raptor_uri = "unsigned_string option"

record raptor_term_literal_value =
  lit_string :: unsigned_string
  lit_string_len :: nat
  lit_datatype :: raptor_uri

record raptor_term_blank_value =
  blank_string :: unsigned_string
  blank_string_len :: nat

record raptor_term =
  term_type :: int
  value_uri :: raptor_uri
  value_literal :: raptor_term_literal_value
  value_blank :: raptor_term_blank_value

definition RAPTOR_TERM_TYPE_UNKNOWN :: int where "RAPTOR_TERM_TYPE_UNKNOWN = 0"
definition RAPTOR_TERM_TYPE_URI :: int where "RAPTOR_TERM_TYPE_URI = 1"
definition RAPTOR_TERM_TYPE_LITERAL :: int where "RAPTOR_TERM_TYPE_LITERAL = 2"
definition RAPTOR_TERM_TYPE_BLANK :: int where "RAPTOR_TERM_TYPE_BLANK = 4"

subsection \<open>The three kinds of term and their constructors\<close>

datatype rdf_uri = Rdf_uri (uri: unsigned_string)

datatype rdf_literal = Rdf_literal (literal_value: unsigned_string) (literal_uri: rdf_uri)

datatype rdf_blank = Rdf_blank (blank_value: unsigned_string)

text \<open>
  \<open>rdf_uri(raptor_uri*)\<close>: the empty string for \<open>NULL\<close>. The literal and the blank
  are built with \<open>basic_string(ptr, len)\<close>, which takes the first \<open>len\<close> characters.
\<close>

definition new_rdf_uri :: "raptor_uri \<Rightarrow> rdf_uri" where
  "new_rdf_uri u = Rdf_uri (case u of None \<Rightarrow> [] | Some s \<Rightarrow> s)"

definition new_rdf_literal :: "raptor_term_literal_value \<Rightarrow> rdf_literal" where
  "new_rdf_literal lit =
     Rdf_literal (take (lit_string_len lit) (lit_string lit)) (new_rdf_uri (lit_datatype lit))"

definition new_rdf_blank :: "raptor_term_blank_value \<Rightarrow> rdf_blank" where
  "new_rdf_blank blnk = Rdf_blank (take (blank_string_len blnk) (blank_string blnk))"

text \<open>\<open>boost::variant<rdf_uri, rdf_literal, rdf_blank>\<close>: a tagged union.\<close>

datatype rdf_term = Uri rdf_uri | Literal rdf_literal | Blank rdf_blank

text \<open>The three predicate visitors: one overload for the type asked for, a template for the rest.\<close>

fun is_uri :: "rdf_term \<Rightarrow> bool" where
  "is_uri (Uri _) = True"
| "is_uri _ = False"

fun is_literal :: "rdf_term \<Rightarrow> bool" where
  "is_literal (Literal _) = True"
| "is_literal _ = False"

fun is_blank :: "rdf_term \<Rightarrow> bool" where
  "is_blank (Blank _) = True"
| "is_blank _ = False"

text \<open>\<open>boost::get<T>\<close> on a variant reference throws \<open>bad_get\<close> when \<open>T\<close> is not active.\<close>

definition get_rdf_uri :: "rdf_term \<Rightarrow> error + rdf_uri" where
  "get_rdf_uri t = (case t of Uri u \<Rightarrow> Inr u | _ \<Rightarrow> Inl bad_get)"

definition get_rdf_literal :: "rdf_term \<Rightarrow> error + rdf_literal" where
  "get_rdf_literal t = (case t of Literal l \<Rightarrow> Inr l | _ \<Rightarrow> Inl bad_get)"

definition get_rdf_blank :: "rdf_term \<Rightarrow> error + rdf_blank" where
  "get_rdf_blank t = (case t of Blank b \<Rightarrow> Inr b | _ \<Rightarrow> Inl bad_get)"

text \<open>The three specialisations of \<open>term_cast\<close>.\<close>

definition term_cast_rdf_uri :: "rdf_term \<Rightarrow> error + rdf_uri" where
  "term_cast_rdf_uri t =
     (if is_uri t then get_rdf_uri t else Inl (domain_error ''bad cast''))"

definition term_cast_rdf_literal :: "rdf_term \<Rightarrow> error + rdf_literal" where
  "term_cast_rdf_literal t =
     (if is_literal t then get_rdf_literal t else Inl (domain_error ''bad cast''))"

definition term_cast_rdf_blank :: "rdf_term \<Rightarrow> error + rdf_blank" where
  "term_cast_rdf_blank t =
     (if is_blank t then get_rdf_blank t else Inl (domain_error ''bad cast''))"

text \<open>\<open>make_rdf_term\<close>: a switch on the type tag with a throwing default.\<close>

definition make_rdf_term :: "raptor_term \<Rightarrow> error + rdf_term" where
  "make_rdf_term rterm =
     (if term_type rterm = RAPTOR_TERM_TYPE_URI then
        Inr (Uri (new_rdf_uri (value_uri rterm)))
      else if term_type rterm = RAPTOR_TERM_TYPE_LITERAL then
        Inr (Literal (new_rdf_literal (value_literal rterm)))
      else if term_type rterm = RAPTOR_TERM_TYPE_BLANK then
        Inr (Blank (new_rdf_blank (value_blank rterm)))
      else Inl (domain_error ''bad rdf data''))"

subsection \<open>Triples\<close>

datatype rdf_triple = Rdf_triple (subject: rdf_term) (predicate: rdf_term) (object: rdf_term)


section \<open>The fetch and parse step: \<open>rdf_web_parser\<close>\<close>

text \<open>
  raptor2 reports to the program through two callbacks, registered before the parse: the
  statement handler, called once per parsed statement, and the log handler, called once
  per message. One run of \<open>raptor_parser_parse_uri_with_connection\<close> is therefore the
  sequence of callbacks it makes. The values of the enum \<open>raptor_log_level\<close> are those
  of raptor2.h.
\<close>

record raptor_statement =
  stmt_subject :: raptor_term
  stmt_predicate :: raptor_term
  stmt_object :: raptor_term

record raptor_log_message =
  msg_level :: int
  msg_text :: string

definition RAPTOR_LOG_LEVEL_ERROR :: int where "RAPTOR_LOG_LEVEL_ERROR = 5"
definition RAPTOR_LOG_LEVEL_FATAL :: int where "RAPTOR_LOG_LEVEL_FATAL = 6"

datatype raptor_callback = Statement raptor_statement | Log_message raptor_log_message

text \<open>
  The library itself is a parameter: \<open>raptor_new_uri\<close> may return \<open>NULL\<close>, and the
  parse of a uri depends on the outside world \<open>'w\<close> (the network), which it may change.
\<close>

record 'w raptor2 =
  raptor_new_uri :: "string \<Rightarrow> raptor_uri"
  raptor_parser_parse_uri_with_connection :: "unsigned_string \<Rightarrow> 'w \<Rightarrow> raptor_callback list \<times> 'w"

text \<open>
  \<open>handle_statement\<close> pushes one triple to the back of the vector; each of the three
  calls of \<open>make_rdf_term\<close> may throw (always the same exception, so the order in which
  C++ evaluates them does not show). \<open>handle_log_messages\<close> overwrites the flag with what the current message
  says (it also prints the text of a bad message, which is not modelled).
\<close>

definition handle_statement :: "rdf_triple list \<Rightarrow> raptor_statement \<Rightarrow> error + rdf_triple list" where
  "handle_statement triples statement =
     (case make_rdf_term (stmt_subject statement) of Inl e \<Rightarrow> Inl e | Inr s \<Rightarrow>
      case make_rdf_term (stmt_predicate statement) of Inl e \<Rightarrow> Inl e | Inr p \<Rightarrow>
      case make_rdf_term (stmt_object statement) of Inl e \<Rightarrow> Inl e | Inr ob \<Rightarrow>
        Inr (triples @ [Rdf_triple s p ob]))"

definition handle_log_messages :: "bool \<Rightarrow> raptor_log_message \<Rightarrow> bool" where
  "handle_log_messages good_parse message =
     (msg_level message \<noteq> RAPTOR_LOG_LEVEL_ERROR \<and> msg_level message \<noteq> RAPTOR_LOG_LEVEL_FATAL)"

fun run_callbacks :: "raptor_callback list \<Rightarrow> rdf_triple list \<Rightarrow> bool \<Rightarrow> error + (rdf_triple list \<times> bool)" where
  "run_callbacks [] triples good_parse = Inr (triples, good_parse)"
| "run_callbacks (Statement statement # cs) triples good_parse =
     (case handle_statement triples statement of
        Inl e \<Rightarrow> Inl e
      | Inr triples' \<Rightarrow> run_callbacks cs triples' good_parse)"
| "run_callbacks (Log_message message # cs) triples good_parse =
     run_callbacks cs triples (handle_log_messages good_parse message)"

text \<open>
  \<open>rdf_web_parser::operator()\<close>: the vector starts empty and the flag true; a \<open>NULL\<close>
  uri object throws; the result code of the parse is ignored; the vector is copied to
  \<open>dest\<close> (a back inserter, so appended) whatever the flag says; the flag is returned.
\<close>

definition rdf_web_parser_call ::
  "'w raptor2 \<Rightarrow> string \<Rightarrow> rdf_triple list \<Rightarrow> 'w \<Rightarrow> (error + bool \<times> rdf_triple list) \<times> 'w" where
  "rdf_web_parser_call lib uri_str dest w =
     (case raptor_new_uri lib uri_str of
        None \<Rightarrow> (Inl (domain_error ''Failed to initialize raptor uri''), w)
      | Some r_uri \<Rightarrow>
          (case raptor_parser_parse_uri_with_connection lib r_uri w of
             (callbacks, w') \<Rightarrow>
               (case run_callbacks callbacks [] True of
                  Inl e \<Rightarrow> (Inl e, w')
                | Inr (triples, good_parse) \<Rightarrow> (Inr (good_parse, dest @ triples), w'))))"

section \<open>\<open>std::remove_if\<close>\<close>

text \<open>
  The walker filters with \<open>std::remove_if\<close>, which compacts the kept elements to the
  front of the sequence and returns the new end. It is modelled as the standard library
  implements it: find the first element to remove, then walk the rest with a read position
  \<open>i\<close> and a write position \<open>first\<close>. What is left behind the new end is
  unspecified in C++ (here: the old values); the walker never reads it.
\<close>

fun find_if :: "('a \<Rightarrow> bool) \<Rightarrow> 'a list \<Rightarrow> nat" where
  "find_if p [] = 0"
| "find_if p (x # xs) = (if p x then 0 else Suc (find_if p xs))"

function remove_if_loop :: "('a \<Rightarrow> bool) \<Rightarrow> 'a list \<Rightarrow> nat \<Rightarrow> nat \<Rightarrow> 'a list \<times> nat" where
  "remove_if_loop p xs first i =
     (if Suc i < length xs then
        (if \<not> p (xs ! Suc i)
         then remove_if_loop p (xs[first := xs ! Suc i]) (Suc first) (Suc i)
         else remove_if_loop p xs first (Suc i))
      else (xs, first))"
  by pat_completeness auto
termination
  by (relation "measure (\<lambda>(p, xs, first, i). length xs - i)") auto

declare remove_if_loop.simps [simp del]

definition remove_if :: "('a \<Rightarrow> bool) \<Rightarrow> 'a list \<Rightarrow> 'a list \<times> nat" where
  "remove_if p xs =
     (let first = find_if p xs
      in if first \<noteq> length xs then remove_if_loop p xs first first else (xs, first))"

section \<open>The visitors and their aggregate\<close>

text \<open>
  A visitor is called with the uri of the node and the range of its triples. It returns
  nothing; what it does is an effect on the world (a list it appends to, a counter, a
  stream), and it may throw. All visitors of the repository read the range and leave it
  as it is.
\<close>

type_synonym 'w visitor = "string \<Rightarrow> rdf_triple list \<Rightarrow> 'w \<Rightarrow> error option \<times> 'w"

text \<open>
  One of the pre-built visitors: \<open>store_uris\<close> pushes the uri of the node to the back
  of a list that the caller owns.
\<close>

definition store_uris :: "(string list) visitor" where
  "store_uris str ts uris = (None, uris @ [str])"

text \<open>
  \<open>aggregate::operator()\<close> builds one \<open>call_me\<close> from its three arguments and hands it
  to \<open>boost::fusion::for_each\<close>, which applies it to the stored visitors from the first to
  the last. An exception leaves the loop.
\<close>

fun aggregate :: "'w visitor list \<Rightarrow> 'w visitor" where
  "aggregate [] str ts w = (None, w)"
| "aggregate (f # functions) str ts w =
     (case f str ts w of
        (Some e, w') \<Rightarrow> (Some e, w')
      | (None, w') \<Rightarrow> aggregate functions str ts w')"

text \<open>
  To speak about the calls an aggregate makes, a visitor is wrapped into a probe that
  writes its own index and the arguments it received to a call log kept beside the world,
  and then runs the visitor.
\<close>

type_synonym call_log = "(nat \<times> string \<times> rdf_triple list) list"

definition probe :: "nat \<Rightarrow> 'w visitor \<Rightarrow> ('w \<times> call_log) visitor" where
  "probe i f str ts = (\<lambda>(w, calls).
     case f str ts w of (r, w') \<Rightarrow> (r, (w', calls @ [(i, str, ts)])))"

fun probes :: "nat \<Rightarrow> 'w visitor list \<Rightarrow> ('w \<times> call_log) visitor list" where
  "probes i [] = []"
| "probes i (f # fs) = probe i f # probes (Suc i) fs"

definition throwing_visitor :: "'w visitor" where
  "throwing_visitor str ts w = (Some (user_exception ''visitor failed''), w)"

section \<open>The ontology walker\<close>

text \<open>
  The state of one call of \<open>ontology_walker::operator()\<close>: the two local containers, the
  outside world, and a log of what the call has done so far, in program order: the
  insertions into the closed list, the calls of the parser with their results, the calls
  of the visitor with the range handed over, and the pushes onto the fringe.
\<close>

datatype event =
    Close string
  | Fetch string "error + bool \<times> rdf_triple list"
  | Visit string "rdf_triple list"
  | Push string

record 'w walker_state =
  closed_list :: "string set"
  fringe :: "string list"
  world :: 'w
  trace :: "event list"

text \<open>
  The second \<open>for_each\<close>: every triple of the filtered range whose object is a uri
  pushes that uri. The cast is guarded by \<open>is_uri\<close>; its throwing branch is kept.
\<close>

fun for_each_push :: "rdf_triple list \<Rightarrow> 'w walker_state \<Rightarrow> (error \<times> 'w walker_state) + 'w walker_state" where
  "for_each_push [] s = Inr s"
| "for_each_push (t # ts) s =
     (let obj = object t in
      if is_uri obj then
        (case term_cast_rdf_uri obj of
           Inl e \<Rightarrow> Inl (e, s)
         | Inr next_uri \<Rightarrow>
             for_each_push ts
               (s\<lparr>fringe := fringe s @ [to_std_string (uri next_uri)],
                  trace := trace s @ [Push (to_std_string (uri next_uri))]\<rparr>))
      else for_each_push ts s)"

text \<open>
  The body of the while loop, after \<open>current_uri\<close> has been taken from the front of the
  fringe. An exception leaves the call; the result then carries the state at the throw.
\<close>

definition walk_body ::
  "'w raptor2 \<Rightarrow> 'w visitor \<Rightarrow> (rdf_triple \<Rightarrow> bool) \<Rightarrow> string \<Rightarrow> 'w walker_state
     \<Rightarrow> (error \<times> 'w walker_state) + 'w walker_state" where
  "walk_body lib func pred current_uri s =
     (if current_uri \<notin> closed_list s then
        (let s1 = s\<lparr>closed_list := insert current_uri (closed_list s),
                    trace := trace s @ [Close current_uri]\<rparr>
         in case rdf_web_parser_call lib current_uri [] (world s1) of
              (r, w1) \<Rightarrow>
                (let s2 = s1\<lparr>world := w1, trace := trace s1 @ [Fetch current_uri r]\<rparr>
                 in case r of
                      Inl e \<Rightarrow> Inl (e, s2)
                    | Inr (good_rdf, triples) \<Rightarrow>
                        if good_rdf then
                          (case remove_if (\<lambda>t. \<not> pred t) triples of
                             (triples', new_end) \<Rightarrow>
                               (let admitted = take new_end triples';
                                    s3 = s2\<lparr>trace := trace s2 @ [Visit current_uri admitted]\<rparr>
                                in case func current_uri admitted (world s3) of
                                     (Some e, w2) \<Rightarrow> Inl (e, s3\<lparr>world := w2\<rparr>)
                                   | (None, w2) \<Rightarrow> for_each_push admitted (s3\<lparr>world := w2\<rparr>)))
                        else Inr s2))
      else Inr s)"

text \<open>
  The loop may run forever (the web need not be finite): \<open>None\<close> is a call that does
  not return.
\<close>

partial_function (option) walk_loop ::
  "'w raptor2 \<Rightarrow> 'w visitor \<Rightarrow> (rdf_triple \<Rightarrow> bool) \<Rightarrow> 'w walker_state
     \<Rightarrow> ((error \<times> 'w walker_state) + 'w walker_state) option" where
  "walk_loop lib func pred s =
     (case fringe s of
        [] \<Rightarrow> Some (Inr s)
      | current_uri # rest \<Rightarrow>
          (case walk_body lib func pred current_uri (s\<lparr>fringe := rest\<rparr>) of
             Inl thrown \<Rightarrow> Some (Inl thrown)
           | Inr s' \<Rightarrow> walk_loop lib func pred s'))"

declare walk_loop.simps [code]

definition walk_init :: "string \<Rightarrow> 'w \<Rightarrow> 'w walker_state" where
  "walk_init uri_str w = \<lparr>closed_list = {}, fringe = [uri_str], world = w, trace = [Push uri_str]\<rparr>"

definition walk ::
  "'w raptor2 \<Rightarrow> 'w visitor \<Rightarrow> (rdf_triple \<Rightarrow> bool) \<Rightarrow> string \<Rightarrow> 'w
     \<Rightarrow> ((error \<times> 'w walker_state) + 'w walker_state) option" where
  "walk lib func pred uri_str w = walk_loop lib func pred (walk_init uri_str w)"

text \<open>The default predicate of the factory.\<close>

definition true_const_pred :: "'a \<Rightarrow> bool" where
  "true_const_pred t = True"

text \<open>The state in which a call ended, whether it returned or threw.\<close>

fun final_state :: "(error \<times> 'w walker_state) + 'w walker_state \<Rightarrow> 'w walker_state" where
  "final_state (Inl (e, s)) = s"
| "final_state (Inr s) = s"

subsection \<open>Reading the log\<close>

fun visit_of :: "event \<Rightarrow> (string \<times> rdf_triple list) list" where
  "visit_of (Visit u ts) = [(u, ts)]"
| "visit_of _ = []"

fun good_fetch_of :: "event \<Rightarrow> (string \<times> rdf_triple list) list" where
  "good_fetch_of (Fetch u (Inr (True, ts))) = [(u, ts)]"
| "good_fetch_of _ = []"

fun failed_fetch_of :: "event \<Rightarrow> string list" where
  "failed_fetch_of (Fetch u (Inr (False, ts))) = [u]"
| "failed_fetch_of _ = []"

fun fetch_of :: "event \<Rightarrow> string list" where
  "fetch_of (Fetch u r) = [u]"
| "fetch_of _ = []"

fun push_of :: "event \<Rightarrow> string list" where
  "push_of (Push u) = [u]"
| "push_of _ = []"

text \<open>The calls of the visitor, and the fetches that returned true, each with its triples.\<close>

definition visit_calls :: "event list \<Rightarrow> (string \<times> rdf_triple list) list" where
  "visit_calls tr = concat (map visit_of tr)"

definition good_fetches :: "event list \<Rightarrow> (string \<times> rdf_triple list) list" where
  "good_fetches tr = concat (map good_fetch_of tr)"

definition visited_uris :: "event list \<Rightarrow> string list" where
  "visited_uris tr = map fst (visit_calls tr)"

definition good_uris :: "event list \<Rightarrow> string list" where
  "good_uris tr = map fst (good_fetches tr)"

definition failed_uris :: "event list \<Rightarrow> string list" where
  "failed_uris tr = concat (map failed_fetch_of tr)"

definition fetched_uris :: "event list \<Rightarrow> string list" where
  "fetched_uris tr = concat (map fetch_of tr)"

definition pushed_uris :: "event list \<Rightarrow> string list" where
  "pushed_uris tr = concat (map push_of tr)"

text \<open>
  A scan of the log that checks that every fetch of a uri comes directly after the
  insertion of that uri into the closed list: the scan remembers the uri of an insertion
  for one event.
\<close>

fun cbf_step :: "string option \<times> bool \<Rightarrow> event \<Rightarrow> string option \<times> bool" where
  "cbf_step (pending, ok) (Close u) = (Some u, ok)"
| "cbf_step (pending, ok) (Fetch u r) = (None, ok \<and> pending = Some u)"
| "cbf_step (pending, ok) (Visit u ts) = (None, ok)"
| "cbf_step (pending, ok) (Push u) = (None, ok)"

definition close_before_fetch :: "event list \<Rightarrow> bool" where
  "close_before_fetch tr = snd (foldl cbf_step (None, True) tr)"

text \<open>The uris that the objects of a sequence of triples refer to, in order.\<close>

fun object_uris :: "rdf_triple list \<Rightarrow> string list" where
  "object_uris [] = []"
| "object_uris (t # ts) =
     (case object t of
        Uri u \<Rightarrow> to_std_string (uri u) # object_uris ts
      | _ \<Rightarrow> object_uris ts)"

text \<open>A sequence with every repetition of an earlier element dropped.\<close>

definition first_occurrences :: "'a list \<Rightarrow> 'a list" where
  "first_occurrences xs = rev (remdups (rev xs))"


text \<open>
  The invariant of the log: the uris fetched so far are the closed list, none was fetched
  twice, the visitor was called for the good fetches and for nothing else, each time with
  the filtered triples, and every fetch comes directly after its insertion.
\<close>

definition trace_inv :: "(rdf_triple \<Rightarrow> bool) \<Rightarrow> 'w walker_state \<Rightarrow> bool" where
  "trace_inv pred s \<longleftrightarrow>
     set (fetched_uris (trace s)) = closed_list s
     \<and> distinct (fetched_uris (trace s))
     \<and> visit_calls (trace s) = map (\<lambda>(u, ts). (u, filter pred ts)) (good_fetches (trace s))
     \<and> foldl cbf_step (None, True) (trace s) = (None, True)"

text \<open>
  The invariant of the fringe: what has been pushed is what has been taken from the front
  followed by what is still waiting, and the uris taken from the front are, up to
  repetitions, the uris fetched. Every push beyond the first is the object of a triple
  handed to the visitor.
\<close>

definition fringe_inv :: "string \<Rightarrow> 'w walker_state \<Rightarrow> bool" where
  "fringe_inv start s \<longleftrightarrow>
     (\<exists>taken. pushed_uris (trace s) = taken @ fringe s
        \<and> fetched_uris (trace s) = first_occurrences taken)
     \<and> pushed_uris (trace s) = start # concat (map (\<lambda>(u, ts). object_uris ts) (visit_calls (trace s)))"

section \<open>Reading the callbacks of one parse\<close>

fun statement_of :: "raptor_callback \<Rightarrow> raptor_statement list" where
  "statement_of (Statement st) = [st]"
| "statement_of (Log_message m) = []"

fun level_of :: "raptor_callback \<Rightarrow> int list" where
  "level_of (Statement st) = []"
| "level_of (Log_message m) = [msg_level m]"

definition statements_of :: "raptor_callback list \<Rightarrow> raptor_statement list" where
  "statements_of callbacks = concat (map statement_of callbacks)"

definition log_levels :: "raptor_callback list \<Rightarrow> int list" where
  "log_levels callbacks = concat (map level_of callbacks)"

definition known_type :: "raptor_term \<Rightarrow> bool" where
  "known_type rterm \<longleftrightarrow>
     term_type rterm = RAPTOR_TERM_TYPE_URI \<or> term_type rterm = RAPTOR_TERM_TYPE_LITERAL
     \<or> term_type rterm = RAPTOR_TERM_TYPE_BLANK"

definition well_typed :: "raptor_statement \<Rightarrow> bool" where
  "well_typed st \<longleftrightarrow>
     known_type (stmt_subject st) \<and> known_type (stmt_predicate st) \<and> known_type (stmt_object st)"

definition triples_of :: "raptor_statement list \<Rightarrow> rdf_triple list" where
  "triples_of sts =
     concat (map (\<lambda>st. case handle_statement [] st of Inl e \<Rightarrow> [] | Inr ts \<Rightarrow> ts) sts)"

section \<open>Example webs\<close>

text \<open>
  A small web for concrete runs: a table gives, for each uri, whether the parse logs an
  error at its end and the uris its statements refer to. A uri that is not in the table
  cannot be fetched: the parse logs an error and delivers no statement.
\<close>

definition example_uri_term :: "string \<Rightarrow> raptor_term" where
  "example_uri_term s =
     \<lparr>term_type = RAPTOR_TERM_TYPE_URI, value_uri = Some s,
      value_literal = \<lparr>lit_string = [], lit_string_len = 0, lit_datatype = None\<rparr>,
      value_blank = \<lparr>blank_string = [], blank_string_len = 0\<rparr>\<rparr>"

definition example_statement :: "string \<Rightarrow> string \<Rightarrow> raptor_statement" where
  "example_statement u v =
     \<lparr>stmt_subject = example_uri_term u, stmt_predicate = example_uri_term ''seeAlso'',
      stmt_object = example_uri_term v\<rparr>"

definition example_triple :: "string \<Rightarrow> string \<Rightarrow> rdf_triple" where
  "example_triple u v =
     Rdf_triple (Uri (Rdf_uri u)) (Uri (Rdf_uri ''seeAlso'')) (Uri (Rdf_uri v))"

definition error_message :: raptor_log_message where
  "error_message = \<lparr>msg_level = RAPTOR_LOG_LEVEL_ERROR, msg_text = ''fetch failed''\<rparr>"

definition example_web :: "(string \<times> bool \<times> string list) list \<Rightarrow> 'w raptor2" where
  "example_web table =
     \<lparr>raptor_new_uri = (\<lambda>u. Some u),
      raptor_parser_parse_uri_with_connection = (\<lambda>u w.
        (case map_of table u of
           None \<Rightarrow> [Log_message error_message]
         | Some (good, vs) \<Rightarrow>
             map (\<lambda>v. Statement (example_statement u v)) vs
               @ (if good then [] else [Log_message error_message]), w))\<rparr>"

definition cyclic_web :: "'w raptor2" where
  "cyclic_web = example_web [(''A'', True, [''B'']), (''B'', True, [''A''])]"

definition diamond_web :: "'w raptor2" where
  "diamond_web =
     example_web [(''A'', True, [''B'', ''C'']), (''B'', True, [''D'']), (''C'', True, [''D'']),
                  (''D'', True, [])]"

definition failing_web :: "'w raptor2" where
  "failing_web = example_web [(''A'', True, [''X'', ''B'']), (''B'', True, [''X''])]"

definition partial_web :: "'w raptor2" where
  "partial_web = example_web [(''X'', False, [''Y''])]"


text \<open>A predicate that admits every triple but those whose object is the uri C.\<close>

definition rejects_C :: "rdf_triple \<Rightarrow> bool" where
  "rejects_C t \<longleftrightarrow> object t \<noteq> Uri (Rdf_uri ''C'')"

section \<open>Shapes of webs\<close>

text \<open>
  What the properties of whole walks assume of the library and of the visitor.
  \<open>refers_to lib pred u vs\<close>: whatever the world, the fetch of \<open>u\<close> is good and the
  objects of its admitted triples that are uris are \<open>vs\<close>, in this order;
  \<open>refers_within\<close>: they lie in a given set. \<open>closed_under_references lib pred R\<close>:
  a good fetch of a uri of \<open>R\<close> refers into \<open>R\<close>.
\<close>

definition refers_to :: "'w raptor2 \<Rightarrow> (rdf_triple \<Rightarrow> bool) \<Rightarrow> string \<Rightarrow> string list \<Rightarrow> bool" where
  "refers_to lib pred u vs \<longleftrightarrow>
     (\<forall>w. \<exists>ts w'. rdf_web_parser_call lib u [] w = (Inr (True, ts), w')
        \<and> object_uris (filter pred ts) = vs)"

definition refers_within :: "'w raptor2 \<Rightarrow> (rdf_triple \<Rightarrow> bool) \<Rightarrow> string \<Rightarrow> string set \<Rightarrow> bool" where
  "refers_within lib pred u S \<longleftrightarrow>
     (\<forall>w. \<exists>ts w'. rdf_web_parser_call lib u [] w = (Inr (True, ts), w')
        \<and> set (object_uris (filter pred ts)) \<subseteq> S)"

definition never_throws :: "'w visitor \<Rightarrow> bool" where
  "never_throws func \<longleftrightarrow> (\<forall>u ts w. fst (func u ts w) = None)"

definition closed_under_references ::
  "'w raptor2 \<Rightarrow> (rdf_triple \<Rightarrow> bool) \<Rightarrow> string set \<Rightarrow> bool" where
  "closed_under_references lib pred R \<longleftrightarrow>
     (\<forall>u w ts w'. u \<in> R \<longrightarrow> rdf_web_parser_call lib u [] w = (Inr (True, ts), w')
        \<longrightarrow> set (object_uris (filter pred ts)) \<subseteq> R)"

section \<open>Properties of the term model\<close>


lemma to_std_string_foldl: "foldl (\<lambda>temp c. temp @ [c]) acc str = acc @ str"
  by (induction str arbitrary: acc) auto

lemma to_std_string_id: "to_std_string str = str"
  by (simp add: to_std_string_def to_std_string_foldl)

lemma exactly_one_variant:
  "(is_uri t \<and> \<not> is_literal t \<and> \<not> is_blank t)
   \<or> (\<not> is_uri t \<and> is_literal t \<and> \<not> is_blank t)
   \<or> (\<not> is_uri t \<and> \<not> is_literal t \<and> is_blank t)"
  by (cases t) auto

text \<open>
  Claim C9. A cast to a variant returns the payload of the term when that variant is the
  active one and throws \<open>std::domain_error("bad cast")\<close> otherwise, for each of the
  three variants; a cast made after the matching test \<open>is_uri\<close>, \<open>is_literal\<close> or
  \<open>is_blank\<close> has answered true never throws.
\<close>

theorem term_cast_projection:
  "term_cast_rdf_uri t = (case t of Uri u \<Rightarrow> Inr u | _ \<Rightarrow> Inl (domain_error ''bad cast''))
   \<and> term_cast_rdf_literal t = (case t of Literal l \<Rightarrow> Inr l | _ \<Rightarrow> Inl (domain_error ''bad cast''))
   \<and> term_cast_rdf_blank t = (case t of Blank b \<Rightarrow> Inr b | _ \<Rightarrow> Inl (domain_error ''bad cast''))
   \<and> (is_uri t \<longrightarrow> (\<exists>u. term_cast_rdf_uri t = Inr u \<and> t = Uri u))
   \<and> (is_literal t \<longrightarrow> (\<exists>l. term_cast_rdf_literal t = Inr l \<and> t = Literal l))
   \<and> (is_blank t \<longrightarrow> (\<exists>b. term_cast_rdf_blank t = Inr b \<and> t = Blank b))"
  by (cases t)
     (simp_all add: term_cast_rdf_uri_def term_cast_rdf_literal_def term_cast_rdf_blank_def
        get_rdf_uri_def get_rdf_literal_def get_rdf_blank_def)

theorem term_cast_projection_witness:
  "is_uri (Uri (Rdf_uri ''http://a'')) \<and> term_cast_rdf_uri (Uri (Rdf_uri ''http://a'')) = Inr (Rdf_uri ''http://a'')
   \<and> term_cast_rdf_literal (Uri (Rdf_uri ''http://a'')) = Inl (domain_error ''bad cast'')
   \<and> term_cast_rdf_blank (Uri (Rdf_uri ''http://a'')) = Inl (domain_error ''bad cast'')"
  using term_cast_projection [of "Uri (Rdf_uri ''http://a'')"] by simp

text \<open>
  Claim C10. \<open>make_rdf_term\<close> returns a term, of the corresponding variant, exactly
  when the type tag of the raw term is uri, literal or blank; for every other tag it throws
  \<open>std::domain_error("bad rdf data")\<close>. A term it returns has exactly one of the three
  variants active.
\<close>

theorem make_rdf_term_total:
  "(term_type rterm = RAPTOR_TERM_TYPE_URI \<longrightarrow>
      make_rdf_term rterm = Inr (Uri (new_rdf_uri (value_uri rterm))))
   \<and> (term_type rterm = RAPTOR_TERM_TYPE_LITERAL \<longrightarrow>
      make_rdf_term rterm = Inr (Literal (new_rdf_literal (value_literal rterm))))
   \<and> (term_type rterm = RAPTOR_TERM_TYPE_BLANK \<longrightarrow>
      make_rdf_term rterm = Inr (Blank (new_rdf_blank (value_blank rterm))))
   \<and> (term_type rterm \<notin> {RAPTOR_TERM_TYPE_URI, RAPTOR_TERM_TYPE_LITERAL, RAPTOR_TERM_TYPE_BLANK} \<longrightarrow>
      make_rdf_term rterm = Inl (domain_error ''bad rdf data''))
   \<and> ((\<exists>t. make_rdf_term rterm = Inr t) \<longleftrightarrow>
      term_type rterm \<in> {RAPTOR_TERM_TYPE_URI, RAPTOR_TERM_TYPE_LITERAL, RAPTOR_TERM_TYPE_BLANK})
   \<and> (\<forall>t. make_rdf_term rterm = Inr t \<longrightarrow>
        (is_uri t \<and> \<not> is_literal t \<and> \<not> is_blank t)
      \<or> (\<not> is_uri t \<and> is_literal t \<and> \<not> is_blank t)
      \<or> (\<not> is_uri t \<and> \<not> is_literal t \<and> is_blank t))"
  by (auto simp: make_rdf_term_def RAPTOR_TERM_TYPE_URI_def RAPTOR_TERM_TYPE_LITERAL_def
        RAPTOR_TERM_TYPE_BLANK_def)

theorem make_rdf_term_total_witness:
  "term_type (example_uri_term ''http://a'') = RAPTOR_TERM_TYPE_URI
   \<and> make_rdf_term (example_uri_term ''http://a'') = Inr (Uri (Rdf_uri ''http://a''))
   \<and> term_type ((example_uri_term ''x'')\<lparr>term_type := RAPTOR_TERM_TYPE_UNKNOWN\<rparr>) \<notin> {RAPTOR_TERM_TYPE_URI, RAPTOR_TERM_TYPE_LITERAL, RAPTOR_TERM_TYPE_BLANK}
   \<and> make_rdf_term ((example_uri_term ''x'')\<lparr>term_type := RAPTOR_TERM_TYPE_UNKNOWN\<rparr>) = Inl (domain_error ''bad rdf data'')"
  using make_rdf_term_total [of "example_uri_term ''http://a''"]
    make_rdf_term_total [of "(example_uri_term ''x'')\<lparr>term_type := RAPTOR_TERM_TYPE_UNKNOWN\<rparr>"]
  by (simp add: example_uri_term_def new_rdf_uri_def RAPTOR_TERM_TYPE_URI_def RAPTOR_TERM_TYPE_LITERAL_def
        RAPTOR_TERM_TYPE_BLANK_def RAPTOR_TERM_TYPE_UNKNOWN_def)


section \<open>\<open>std::remove_if\<close> keeps what the filter keeps\<close>

lemma find_if_le: "find_if p xs \<le> length xs"
  by (induction xs) auto

lemma find_if_filter:
  "find_if p xs < length xs \<Longrightarrow>
   take (find_if p xs) xs @ filter (\<lambda>x. \<not> p x) (drop (Suc (find_if p xs)) xs) = filter (\<lambda>x. \<not> p x) xs"
  by (induction xs) auto

lemma find_if_all: "find_if p xs = length xs \<Longrightarrow> filter (\<lambda>x. \<not> p x) xs = xs"
  by (induction xs) (auto split: if_splits)

lemma remove_if_loop_prefix:
  "first \<le> i \<Longrightarrow> i < length xs \<Longrightarrow> remove_if_loop p xs first i = (ys, e) \<Longrightarrow>
   take e ys = take first xs @ filter (\<lambda>x. \<not> p x) (drop (Suc i) xs) \<and> length ys = length xs"
proof (induction p xs first i arbitrary: ys e rule: remove_if_loop.induct)
  case (1 p xs first i)
  show ?case
  proof (cases "Suc i < length xs")
    case False
    with "1.prems" show ?thesis by (simp add: remove_if_loop.simps [of p xs first i])
  next
    case more: True
    have split: "drop (Suc i) xs = xs ! Suc i # drop (Suc (Suc i)) xs"
      using more by (simp add: Cons_nth_drop_Suc)
    show ?thesis
    proof (cases "p (xs ! Suc i)")
      case True
      with more "1.prems" have "remove_if_loop p xs first (Suc i) = (ys, e)"
        by (simp add: remove_if_loop.simps [of p xs first i])
      with "1.IH"(2) [OF more _ _ _ this] more True "1.prems" show ?thesis
        by (simp add: split)
    next
      case False
      let ?xs = "xs[first := xs ! Suc i]"
      from more False "1.prems" have run: "remove_if_loop p ?xs (Suc first) (Suc i) = (ys, e)"
        by (simp add: remove_if_loop.simps [of p xs first i])
      have "take e ys = take (Suc first) ?xs @ filter (\<lambda>x. \<not> p x) (drop (Suc (Suc i)) ?xs)
            \<and> length ys = length ?xs"
        using "1.IH"(1) [OF more False _ _ run] "1.prems" more by simp
      moreover have "take (Suc first) ?xs = take first xs @ [xs ! Suc i]"
        using "1.prems" more by (simp add: take_Suc_conv_app_nth)
      moreover have "drop (Suc (Suc i)) ?xs = drop (Suc (Suc i)) xs"
        using "1.prems" by simp
      ultimately show ?thesis using False by (simp add: split)
    qed
  qed
qed

lemma remove_if_filter:
  "remove_if p xs = (ys, e) \<Longrightarrow> take e ys = filter (\<lambda>x. \<not> p x) xs"
proof -
  assume run: "remove_if p xs = (ys, e)"
  show ?thesis
  proof (cases "find_if p xs = length xs")
    case True
    with run show ?thesis by (auto simp: remove_if_def Let_def find_if_all)
  next
    case False
    then have lt: "find_if p xs < length xs" using find_if_le [of p xs] by simp
    from run False have "remove_if_loop p xs (find_if p xs) (find_if p xs) = (ys, e)"
      by (simp add: remove_if_def Let_def)
    from remove_if_loop_prefix [OF order_refl lt this] find_if_filter [OF lt]
    show ?thesis by simp
  qed
qed

section \<open>One iteration of the walker, case by case\<close>

lemma for_each_push_eq:
  "for_each_push ts s =
     Inr (s\<lparr>fringe := fringe s @ object_uris ts, trace := trace s @ map Push (object_uris ts)\<rparr>)"
proof (induction ts arbitrary: s)
  case Nil
  show ?case by simp
next
  case (Cons t ts)
  show ?case
    by (cases "object t") (simp_all add: Cons.IH term_cast_rdf_uri_def get_rdf_uri_def)
qed

lemma remove_if_pred:
  obtains ys e where "remove_if (\<lambda>t. \<not> pred t) ts = (ys, e)" and "take e ys = filter pred ts"
proof -
  obtain ys e where r: "remove_if (\<lambda>t. \<not> pred t) ts = (ys, e)"
    by (cases "remove_if (\<lambda>t. \<not> pred t) ts")
  from remove_if_filter [OF r] have "take e ys = filter pred ts" by simp
  with r that show thesis by blast
qed

lemma walk_body_discard:
  "u \<in> closed_list s \<Longrightarrow> walk_body lib func pred u s = Inr s"
  by (simp add: walk_body_def)

lemma walk_body_fetch_throws:
  "u \<notin> closed_list s \<Longrightarrow> rdf_web_parser_call lib u [] (world s) = (Inl e, w1) \<Longrightarrow>
   walk_body lib func pred u s =
     Inl (e, s\<lparr>closed_list := insert u (closed_list s), world := w1,
               trace := trace s @ [Close u, Fetch u (Inl e)]\<rparr>)"
  by (simp add: walk_body_def)

lemma walk_body_fetch_fails:
  "u \<notin> closed_list s \<Longrightarrow> rdf_web_parser_call lib u [] (world s) = (Inr (False, ts), w1) \<Longrightarrow>
   walk_body lib func pred u s =
     Inr (s\<lparr>closed_list := insert u (closed_list s), world := w1,
            trace := trace s @ [Close u, Fetch u (Inr (False, ts))]\<rparr>)"
  by (simp add: walk_body_def)

lemma walk_body_visitor_throws:
  assumes "u \<notin> closed_list s"
    and "rdf_web_parser_call lib u [] (world s) = (Inr (True, ts), w1)"
    and "func u (filter pred ts) w1 = (Some e, w2)"
  shows "walk_body lib func pred u s =
     Inl (e, s\<lparr>closed_list := insert u (closed_list s), world := w2,
               trace := trace s @ [Close u, Fetch u (Inr (True, ts)), Visit u (filter pred ts)]\<rparr>)"
proof -
  obtain ys n where "remove_if (\<lambda>t. \<not> pred t) ts = (ys, n)" and "take n ys = filter pred ts"
    by (rule remove_if_pred)
  with assms show ?thesis by (simp add: walk_body_def)
qed

lemma walk_body_visits:
  assumes "u \<notin> closed_list s"
    and "rdf_web_parser_call lib u [] (world s) = (Inr (True, ts), w1)"
    and "func u (filter pred ts) w1 = (None, w2)"
  shows "walk_body lib func pred u s =
     Inr (s\<lparr>closed_list := insert u (closed_list s), world := w2,
            fringe := fringe s @ object_uris (filter pred ts),
            trace := trace s @ [Close u, Fetch u (Inr (True, ts)), Visit u (filter pred ts)]
                       @ map Push (object_uris (filter pred ts))\<rparr>)"
proof -
  obtain ys n where "remove_if (\<lambda>t. \<not> pred t) ts = (ys, n)" and "take n ys = filter pred ts"
    by (rule remove_if_pred)
  with assms show ?thesis by (simp add: walk_body_def for_each_push_eq Let_def)
qed

lemma walk_body_cases [case_names discard fetch_throws fetch_fails visitor_throws visits]:
  obtains
    (discard) "u \<in> closed_list s" "walk_body lib func pred u s = Inr s"
  | (fetch_throws) e w1 where "u \<notin> closed_list s"
      "rdf_web_parser_call lib u [] (world s) = (Inl e, w1)"
      "walk_body lib func pred u s =
         Inl (e, s\<lparr>closed_list := insert u (closed_list s), world := w1,
                   trace := trace s @ [Close u, Fetch u (Inl e)]\<rparr>)"
  | (fetch_fails) ts w1 where "u \<notin> closed_list s"
      "rdf_web_parser_call lib u [] (world s) = (Inr (False, ts), w1)"
      "walk_body lib func pred u s =
         Inr (s\<lparr>closed_list := insert u (closed_list s), world := w1,
                trace := trace s @ [Close u, Fetch u (Inr (False, ts))]\<rparr>)"
  | (visitor_throws) ts w1 e w2 where "u \<notin> closed_list s"
      "rdf_web_parser_call lib u [] (world s) = (Inr (True, ts), w1)"
      "func u (filter pred ts) w1 = (Some e, w2)"
      "walk_body lib func pred u s =
         Inl (e, s\<lparr>closed_list := insert u (closed_list s), world := w2,
                   trace := trace s @ [Close u, Fetch u (Inr (True, ts)), Visit u (filter pred ts)]\<rparr>)"
  | (visits) ts w1 w2 where "u \<notin> closed_list s"
      "rdf_web_parser_call lib u [] (world s) = (Inr (True, ts), w1)"
      "func u (filter pred ts) w1 = (None, w2)"
      "walk_body lib func pred u s =
         Inr (s\<lparr>closed_list := insert u (closed_list s), world := w2,
                fringe := fringe s @ object_uris (filter pred ts),
                trace := trace s @ [Close u, Fetch u (Inr (True, ts)), Visit u (filter pred ts)]
                           @ map Push (object_uris (filter pred ts))\<rparr>)"
proof (cases "u \<in> closed_list s")
  case True
  show thesis by (rule discard [OF True walk_body_discard [OF True]])
next
  case fresh: False
  obtain r w1 where call: "rdf_web_parser_call lib u [] (world s) = (r, w1)"
    by (cases "rdf_web_parser_call lib u [] (world s)")
  show thesis
  proof (cases r)
    case (Inl e)
    with call have c: "rdf_web_parser_call lib u [] (world s) = (Inl e, w1)" by simp
    show thesis by (rule fetch_throws [OF fresh c walk_body_fetch_throws [OF fresh c]])
  next
    case (Inr gt)
    obtain good ts where gt: "gt = (good, ts)" by (cases gt)
    show thesis
    proof (cases good)
      case False
      with call Inr gt have c: "rdf_web_parser_call lib u [] (world s) = (Inr (False, ts), w1)"
        by simp
      show thesis by (rule fetch_fails [OF fresh c walk_body_fetch_fails [OF fresh c]])
    next
      case True
      with call Inr gt have c: "rdf_web_parser_call lib u [] (world s) = (Inr (True, ts), w1)"
        by simp
      obtain x w2 where f: "func u (filter pred ts) w1 = (x, w2)"
        by (cases "func u (filter pred ts) w1")
      show thesis
      proof (cases x)
        case None
        with f have f': "func u (filter pred ts) w1 = (None, w2)" by simp
        show thesis
          by (rule visits [OF fresh c f' walk_body_visits [of u s lib ts w1 func pred w2, OF fresh c f']])
      next
        case (Some e)
        with f have f': "func u (filter pred ts) w1 = (Some e, w2)" by simp
        show thesis
          by (rule visitor_throws [OF fresh c f'
                walk_body_visitor_throws [of u s lib ts w1 func pred e w2, OF fresh c f']])
      qed
    qed
  qed
qed

lemma walk_loop_invariant:
  assumes run: "walk_loop lib func pred s = Some r" and init: "P s"
    and step: "\<And>s u rest s'. P s \<Longrightarrow> fringe s = u # rest \<Longrightarrow>
           walk_body lib func pred u (s\<lparr>fringe := rest\<rparr>) = Inr s' \<Longrightarrow> P s'"
  shows "(\<exists>s'. r = Inr s' \<and> fringe s' = [] \<and> P s')
   \<or> (\<exists>s0 u rest th. P s0 \<and> fringe s0 = u # rest
        \<and> walk_body lib func pred u (s0\<lparr>fringe := rest\<rparr>) = Inl th \<and> r = Inl th)"
proof -
  let ?Q = "\<lambda>l f p s r. l = lib \<longrightarrow> f = func \<longrightarrow> p = pred \<longrightarrow> P s \<longrightarrow>
    (\<exists>s'. r = Inr s' \<and> fringe s' = [] \<and> P s')
     \<or> (\<exists>s0 u rest th. P s0 \<and> fringe s0 = u # rest
        \<and> walk_body lib func pred u (s0\<lparr>fringe := rest\<rparr>) = Inl th \<and> r = Inl th)"
  have "?Q lib func pred s r"
  proof (rule walk_loop.raw_induct [where P = ?Q, OF _ run])
    fix loop l f p s r
    assume IH: "\<And>l f p s r. loop l f p s = Some r \<Longrightarrow> ?Q l f p s r"
      and body: "(case fringe s of [] \<Rightarrow> Some (Inr s)
        | current_uri # rest \<Rightarrow>
            (case walk_body l f p current_uri (s\<lparr>fringe := rest\<rparr>) of
               Inl thrown \<Rightarrow> Some (Inl thrown)
             | Inr s' \<Rightarrow> loop l f p s')) = Some r"
    show "?Q l f p s r"
    proof (intro impI)
      assume eqs: "l = lib" "f = func" "p = pred" and Ps: "P s"
      show "(\<exists>s'. r = Inr s' \<and> fringe s' = [] \<and> P s')
        \<or> (\<exists>s0 u rest th. P s0 \<and> fringe s0 = u # rest
           \<and> walk_body lib func pred u (s0\<lparr>fringe := rest\<rparr>) = Inl th \<and> r = Inl th)"
      proof (cases "fringe s")
        case Nil
        with body have "r = Inr s" by simp
        with Nil Ps show ?thesis by blast
      next
        case (Cons u rest)
        show ?thesis
        proof (cases "walk_body lib func pred u (s\<lparr>fringe := rest\<rparr>)")
          case (Inl th)
          with Cons body eqs have "r = Inl th" by simp
          with Inl Cons Ps show ?thesis by blast
        next
          case (Inr s')
          with Cons body eqs have run': "loop l f p s' = Some r" by simp
          from step [OF Ps Cons Inr] have "P s'" .
          with IH [OF run'] eqs show ?thesis by simp
        qed
      qed
    qed
  qed
  with init show ?thesis by simp
qed

lemma walk_loop_final:
  assumes "walk_loop lib func pred s = Some r" and "P s"
    and "\<And>s u rest s'. P s \<Longrightarrow> fringe s = u # rest \<Longrightarrow>
           walk_body lib func pred u (s\<lparr>fringe := rest\<rparr>) = Inr s' \<Longrightarrow> P s'"
  obtains (returns) s' where "r = Inr s'" "fringe s' = []" "P s'"
  | (throws) s0 u rest th where "P s0" "fringe s0 = u # rest"
      "walk_body lib func pred u (s0\<lparr>fringe := rest\<rparr>) = Inl th" "r = Inl th"
proof -
  have "(\<exists>s'. r = Inr s' \<and> fringe s' = [] \<and> P s')
   \<or> (\<exists>s0 u rest th. P s0 \<and> fringe s0 = u # rest
        \<and> walk_body lib func pred u (s0\<lparr>fringe := rest\<rparr>) = Inl th \<and> r = Inl th)"
    by (rule walk_loop_invariant [where P = P, OF assms(1,2)]) (rule assms(3))
  then show thesis using returns throws by blast
qed

section \<open>The invariant of the log\<close>

lemma log_append [simp]:
  "visit_calls (tr @ tr') = visit_calls tr @ visit_calls tr'"
  "good_fetches (tr @ tr') = good_fetches tr @ good_fetches tr'"
  "failed_uris (tr @ tr') = failed_uris tr @ failed_uris tr'"
  "fetched_uris (tr @ tr') = fetched_uris tr @ fetched_uris tr'"
  "pushed_uris (tr @ tr') = pushed_uris tr @ pushed_uris tr'"
  by (simp_all add: visit_calls_def good_fetches_def failed_uris_def fetched_uris_def pushed_uris_def)

lemma log_Cons [simp]:
  "visit_calls (e # tr) = visit_of e @ visit_calls tr"
  "good_fetches (e # tr) = good_fetch_of e @ good_fetches tr"
  "failed_uris (e # tr) = failed_fetch_of e @ failed_uris tr"
  "fetched_uris (e # tr) = fetch_of e @ fetched_uris tr"
  "pushed_uris (e # tr) = push_of e @ pushed_uris tr"
  by (simp_all add: visit_calls_def good_fetches_def failed_uris_def fetched_uris_def pushed_uris_def)

lemma log_Nil [simp]:
  "visit_calls [] = []" "good_fetches [] = []" "failed_uris [] = []" "fetched_uris [] = []"
  "pushed_uris [] = []"
  by (simp_all add: visit_calls_def good_fetches_def failed_uris_def fetched_uris_def pushed_uris_def)

lemma log_map_Push [simp]:
  "visit_calls (map Push us) = []"
  "good_fetches (map Push us) = []"
  "failed_uris (map Push us) = []"
  "fetched_uris (map Push us) = []"
  "pushed_uris (map Push us) = us"
  by (induction us) simp_all

lemma cbf_map_Push [simp]: "foldl cbf_step (p, ok) (map Push us) = (if us = [] then p else None, ok)"
  by (induction us arbitrary: p) simp_all

lemma walk_body_trace_inv:
  assumes "trace_inv pred s"
  shows "trace_inv pred (final_state (walk_body lib func pred u s))"
proof (cases rule: walk_body_cases [of u s lib func pred])
  case discard
  with assms show ?thesis by simp
next
  case (fetch_throws e w1)
  with assms show ?thesis by (simp add: trace_inv_def)
next
  case (fetch_fails ts w1)
  with assms show ?thesis by (simp add: trace_inv_def)
next
  case (visitor_throws ts w1 e w2)
  with assms show ?thesis by (simp add: trace_inv_def)
next
  case (visits ts w1 w2)
  with assms show ?thesis by (simp add: trace_inv_def)
qed

lemma trace_inv_fringe [simp]: "trace_inv pred (s\<lparr>fringe := q\<rparr>) = trace_inv pred s"
  by (simp add: trace_inv_def)

lemma trace_inv_init: "trace_inv pred (walk_init uri_str w)"
  by (simp add: trace_inv_def walk_init_def)

lemma walk_trace_inv:
  assumes "walk lib func pred uri_str w = Some r"
  shows "trace_inv pred (final_state r)"
proof -
  from assms have run: "walk_loop lib func pred (walk_init uri_str w) = Some r"
    by (simp add: walk_def)
  show ?thesis
  proof (rule walk_loop_final [where P = "trace_inv pred", OF run trace_inv_init])
    fix s :: "'a walker_state" and u rest s'
    assume "trace_inv pred s" and b: "walk_body lib func pred u (s\<lparr>fringe := rest\<rparr>) = Inr s'"
    then have "trace_inv pred (s\<lparr>fringe := rest\<rparr>)" by simp
    from walk_body_trace_inv [OF this, of lib func u] b show "trace_inv pred s'" by simp
  next
    fix s' assume "r = Inr s'" "trace_inv pred s'"
    then show ?thesis by simp
  next
    fix s0 :: "'a walker_state" and u rest th
    assume "trace_inv pred s0" and b: "walk_body lib func pred u (s0\<lparr>fringe := rest\<rparr>) = Inl th"
      and r: "r = Inl th"
    then have "trace_inv pred (s0\<lparr>fringe := rest\<rparr>)" by simp
    from walk_body_trace_inv [OF this, of lib func u] b r show ?thesis by simp
  qed
qed

section \<open>The contract of the fetch and parse step\<close>

lemma known_type_make: "known_type t \<Longrightarrow> \<exists>x. make_rdf_term t = Inr x"
  by (auto simp: known_type_def make_rdf_term_def)

lemma handle_statement_well_typed:
  "well_typed st \<Longrightarrow> \<exists>t. handle_statement triples st = Inr (triples @ [t]) \<and> handle_statement [] st = Inr [t]"
proof -
  assume "well_typed st"
  then obtain s p ob where "make_rdf_term (stmt_subject st) = Inr s"
    "make_rdf_term (stmt_predicate st) = Inr p" "make_rdf_term (stmt_object st) = Inr ob"
    using known_type_make unfolding well_typed_def by blast
  then show ?thesis by (simp add: handle_statement_def)
qed

lemma callbacks_Cons [simp]:
  "statements_of (c # cs) = statement_of c @ statements_of cs"
  "log_levels (c # cs) = level_of c @ log_levels cs"
  "statements_of [] = []" "log_levels [] = []"
  by (simp_all add: statements_of_def log_levels_def)

lemma triples_of_Cons [simp]:
  "triples_of [] = []"
  "triples_of (st # sts) = (case handle_statement [] st of Inl e \<Rightarrow> [] | Inr ts \<Rightarrow> ts) @ triples_of sts"
  by (simp_all add: triples_of_def)

lemma run_callbacks_well_typed:
  "\<forall>st \<in> set (statements_of cs). well_typed st \<Longrightarrow>
   run_callbacks cs triples good =
     Inr (triples @ triples_of (statements_of cs),
          (if log_levels cs = [] then good
           else last (log_levels cs) \<noteq> RAPTOR_LOG_LEVEL_ERROR
                \<and> last (log_levels cs) \<noteq> RAPTOR_LOG_LEVEL_FATAL))"
proof (induction cs arbitrary: triples good)
  case Nil
  show ?case by simp
next
  case (Cons c cs)
  show ?case
  proof (cases c)
    case (Statement st)
    with Cons.prems have "well_typed st" by simp
    from handle_statement_well_typed [OF this, of triples] obtain t
      where "handle_statement triples st = Inr (triples @ [t])" "handle_statement [] st = Inr [t]"
      by blast
    with Statement Cons show ?thesis by simp
  next
    case (Log_message m)
    with Cons show ?thesis by (simp add: handle_log_messages_def)
  qed
qed

lemma length_triples_of:
  "\<forall>st \<in> set sts. well_typed st \<Longrightarrow> length (triples_of sts) = length sts"
proof (induction sts)
  case Nil
  show ?case by simp
next
  case (Cons st sts)
  then have "well_typed st" by simp
  from handle_statement_well_typed [OF this, of "[]"] obtain t
    where "handle_statement [] st = Inr [t]" by auto
  with Cons show ?case by simp
qed

text \<open>
  Claim C5, as amended. \<open>rdf_web_parser::operator()\<close> throws when raptor cannot build
  the uri object; when it can, and every term of every statement of the parse has a known
  type, the call does not throw, whatever messages the parser logs (this is how raptor
  reports a failure of the network or of the parse). The call then returns the flag together
  with all the triples of the statements handled during the parse, in order and behind what
  \<open>dest\<close> held, one triple per statement. The flag is true when no message was logged
  and false when the last message logged is an error or fatal.
\<close>

theorem rdf_web_parser_failure_contract:
  "(raptor_new_uri lib uri_str = None \<longrightarrow>
      rdf_web_parser_call lib uri_str dest w = (Inl (domain_error ''Failed to initialize raptor uri''), w))
   \<and> (\<forall>r_uri callbacks w'.
        raptor_new_uri lib uri_str = Some r_uri
        \<and> raptor_parser_parse_uri_with_connection lib r_uri w = (callbacks, w')
        \<and> (\<forall>st \<in> set (statements_of callbacks). well_typed st) \<longrightarrow>
        (\<exists>good. rdf_web_parser_call lib uri_str dest w
                  = (Inr (good, dest @ triples_of (statements_of callbacks)), w')
           \<and> length (triples_of (statements_of callbacks)) = length (statements_of callbacks)
           \<and> (log_levels callbacks = [] \<longrightarrow> good)
           \<and> (log_levels callbacks \<noteq> []
                \<and> last (log_levels callbacks) \<in> {RAPTOR_LOG_LEVEL_ERROR, RAPTOR_LOG_LEVEL_FATAL}
                \<longrightarrow> \<not> good)))"
proof (intro conjI impI allI)
  assume "raptor_new_uri lib uri_str = None"
  then show "rdf_web_parser_call lib uri_str dest w
     = (Inl (domain_error ''Failed to initialize raptor uri''), w)"
    by (simp add: rdf_web_parser_call_def)
next
  fix r_uri callbacks w'
  assume a: "raptor_new_uri lib uri_str = Some r_uri
        \<and> raptor_parser_parse_uri_with_connection lib r_uri w = (callbacks, w')
        \<and> (\<forall>st \<in> set (statements_of callbacks). well_typed st)"
  let ?good = "if log_levels callbacks = [] then True
           else last (log_levels callbacks) \<noteq> RAPTOR_LOG_LEVEL_ERROR
                \<and> last (log_levels callbacks) \<noteq> RAPTOR_LOG_LEVEL_FATAL"
  from a have wt: "\<forall>st \<in> set (statements_of callbacks). well_typed st" by simp
  have "rdf_web_parser_call lib uri_str dest w
          = (Inr (?good, dest @ triples_of (statements_of callbacks)), w')"
    using a run_callbacks_well_typed [OF wt, of "[]" True]
    by (simp add: rdf_web_parser_call_def)
  moreover have "length (triples_of (statements_of callbacks)) = length (statements_of callbacks)"
    by (rule length_triples_of [OF wt])
  ultimately show "\<exists>good. rdf_web_parser_call lib uri_str dest w
                  = (Inr (good, dest @ triples_of (statements_of callbacks)), w')
           \<and> length (triples_of (statements_of callbacks)) = length (statements_of callbacks)
           \<and> (log_levels callbacks = [] \<longrightarrow> good)
           \<and> (log_levels callbacks \<noteq> []
                \<and> last (log_levels callbacks) \<in> {RAPTOR_LOG_LEVEL_ERROR, RAPTOR_LOG_LEVEL_FATAL}
                \<longrightarrow> \<not> good)"
    by (intro exI [of _ ?good]) auto
qed

theorem rdf_web_parser_failure_contract_witness:
  "raptor_new_uri (partial_web :: unit raptor2) ''X'' = Some ''X''
   \<and> raptor_parser_parse_uri_with_connection (partial_web :: unit raptor2) ''X'' ()
       = ([Statement (example_statement ''X'' ''Y''), Log_message error_message], ())
   \<and> statements_of [Statement (example_statement ''X'' ''Y''), Log_message error_message]
       = [example_statement ''X'' ''Y'']
   \<and> well_typed (example_statement ''X'' ''Y'')
   \<and> last (log_levels [Statement (example_statement ''X'' ''Y''), Log_message error_message])
       \<in> {RAPTOR_LOG_LEVEL_ERROR, RAPTOR_LOG_LEVEL_FATAL}
   \<and> (\<exists>triples. rdf_web_parser_call (partial_web :: unit raptor2) ''X'' [] () = (Inr (False, triples), ())
         \<and> length triples = 1)"
proof -
  let ?cs = "[Statement (example_statement ''X'' ''Y''), Log_message error_message]"
  have h1: "raptor_new_uri (partial_web :: unit raptor2) ''X'' = Some ''X''"
    by (simp add: partial_web_def example_web_def)
  have h2: "raptor_parser_parse_uri_with_connection (partial_web :: unit raptor2) ''X'' () = (?cs, ())"
    by (simp add: partial_web_def example_web_def)
  have h3: "\<forall>st \<in> set (statements_of ?cs). well_typed st"
    by (simp add: statements_of_def well_typed_def known_type_def example_statement_def
        example_uri_term_def)
  have h4: "log_levels ?cs \<noteq> [] \<and> last (log_levels ?cs) \<in> {RAPTOR_LOG_LEVEL_ERROR, RAPTOR_LOG_LEVEL_FATAL}"
    by (simp add: log_levels_def error_message_def)
  from rdf_web_parser_failure_contract [of "partial_web :: unit raptor2" "''X''" "[]" "()"]
    h1 h2 h3 h4
  have "\<exists>good. rdf_web_parser_call (partial_web :: unit raptor2) ''X'' [] ()
                  = (Inr (good, [] @ triples_of (statements_of ?cs)), ())
           \<and> length (triples_of (statements_of ?cs)) = length (statements_of ?cs)
           \<and> \<not> good"
    by blast
  then have "\<exists>triples. rdf_web_parser_call (partial_web :: unit raptor2) ''X'' [] () = (Inr (False, triples), ())
         \<and> length triples = 1"
    by (auto simp: statements_of_def)
  moreover have "statements_of ?cs = [example_statement ''X'' ''Y'']"
    by (simp add: statements_of_def)
  moreover from h3 have "well_typed (example_statement ''X'' ''Y'')"
    by (simp add: statements_of_def)
  ultimately show ?thesis using h1 h2 h4 by blast
qed

text \<open>
  Claim C5, as stated, fails: a parse that delivers one statement and then logs an error
  returns false together with the triple of that statement, not with an empty sequence.
\<close>

theorem rdf_web_parser_partial_triples_counterexample:
  "rdf_web_parser_call (partial_web :: unit raptor2) ''X'' [] ()
     = (Inr (False, [example_triple ''X'' ''Y'']), ())"
  by code_simp


section \<open>The aggregate of visitors\<close>

lemma aggregate_probes:
  "aggregate (probes i fs) str ts (w, cs) = (r, (w', cs')) \<Longrightarrow>
     aggregate fs str ts w = (r, w')
     \<and> (\<exists>k\<le>length fs. cs' = cs @ map (\<lambda>j. (j, str, ts)) [i..<i + k]
          \<and> (case r of
                None \<Rightarrow> k = length fs
              | Some e \<Rightarrow> 0 < k
                  \<and> (\<exists>w0. aggregate (take (k - 1) fs) str ts w = (None, w0)
                         \<and> (fs ! (k - 1)) str ts w0 = (Some e, w'))))"
proof (induction fs arbitrary: i w cs)
  case Nil
  then show ?case by auto
next
  case (Cons f fs)
  obtain x w1 where f: "f str ts w = (x, w1)" by (cases "f str ts w")
  show ?case
  proof (cases x)
    case (Some e)
    with f Cons.prems have "r = Some e" "w' = w1" "cs' = cs @ [(i, str, ts)]"
      by (simp_all add: probe_def)
    with f Some show ?thesis by (intro conjI exI [of _ 1]) auto
  next
    case None
    with f Cons.prems have run: "aggregate (probes (Suc i) fs) str ts (w1, cs @ [(i, str, ts)]) = (r, (w', cs'))"
      by (simp add: probe_def)
    from Cons.IH [OF run] obtain k where k: "k \<le> length fs"
      "cs' = (cs @ [(i, str, ts)]) @ map (\<lambda>j. (j, str, ts)) [Suc i..<Suc i + k]"
      "aggregate fs str ts w1 = (r, w')"
      "case r of None \<Rightarrow> k = length fs
              | Some e \<Rightarrow> 0 < k
                  \<and> (\<exists>w0. aggregate (take (k - 1) fs) str ts w1 = (None, w0)
                         \<and> (fs ! (k - 1)) str ts w0 = (Some e, w'))"
      by blast
    have "cs' = cs @ map (\<lambda>j. (j, str, ts)) [i..<i + Suc k]"
      using k(2) by (simp add: upt_conv_Cons)
    moreover have "aggregate (f # fs) str ts w = (r, w')" using f None k(3) by simp
    moreover have "case r of None \<Rightarrow> Suc k = length (f # fs)
              | Some e \<Rightarrow> 0 < Suc k
                  \<and> (\<exists>w0. aggregate (take (Suc k - 1) (f # fs)) str ts w = (None, w0)
                         \<and> ((f # fs) ! (Suc k - 1)) str ts w0 = (Some e, w'))"
    proof (cases r)
      case None
      with k(4) show ?thesis by simp
    next
      case (Some e)
      with k(4) obtain w0 where "0 < k" "aggregate (take (k - 1) fs) str ts w1 = (None, w0)"
        "(fs ! (k - 1)) str ts w0 = (Some e, w')" by auto
      then show ?thesis using Some f \<open>x = None\<close> by (cases k) auto
    qed
    ultimately show ?thesis using k(1) by (intro conjI exI [of _ "Suc k"]) simp_all
  qed
qed

text \<open>
  Claim C8. One call of an aggregate calls its visitors from the first on, each with the
  uri and the triples the aggregate received: with every visitor wrapped in a probe, the
  call log reads \<open>(0, str, ts), (1, str, ts), \<dots>, (k - 1, str, ts)\<close>. When no visitor
  throws, \<open>k\<close> is the number of visitors, so each was called exactly once. When the call
  throws, the visitors before number \<open>k - 1\<close> returned, number \<open>k - 1\<close> threw that
  exception, and no later visitor was called. The probes change nothing: the aggregate of
  the bare visitors has the same result.
\<close>

theorem aggregate_fan_out:
  assumes "aggregate (probes 0 fs) str ts (w, []) = (r, (w', calls))"
  shows "aggregate fs str ts w = (r, w')
     \<and> (\<exists>k\<le>length fs. calls = map (\<lambda>j. (j, str, ts)) [0..<k]
          \<and> (case r of
                None \<Rightarrow> k = length fs
              | Some e \<Rightarrow> 0 < k
                  \<and> (\<exists>w0. aggregate (take (k - 1) fs) str ts w = (None, w0)
                         \<and> (fs ! (k - 1)) str ts w0 = (Some e, w'))))"
  using aggregate_probes [OF assms] by simp

theorem aggregate_fan_out_witness:
  "aggregate (probes 0 [store_uris, throwing_visitor, store_uris]) ''A'' [example_triple ''A'' ''B''] ([], [])
     = (Some (user_exception ''visitor failed''),
        ([''A''], [(0, ''A'', [example_triple ''A'' ''B'']), (1, ''A'', [example_triple ''A'' ''B''])]))
   \<and> aggregate [store_uris, throwing_visitor, store_uris] ''A'' [example_triple ''A'' ''B''] []
     = (Some (user_exception ''visitor failed''), [''A''])
   \<and> aggregate (probes 0 [store_uris, store_uris, store_uris]) ''A'' [example_triple ''A'' ''B''] ([], [])
     = (None, ([''A'', ''A'', ''A''],
         [(0, ''A'', [example_triple ''A'' ''B'']), (1, ''A'', [example_triple ''A'' ''B'']),
          (2, ''A'', [example_triple ''A'' ''B''])]))
   \<and> aggregate [store_uris, store_uris, store_uris] ''A'' [example_triple ''A'' ''B''] []
     = (None, [''A'', ''A'', ''A''])"
proof -
  have h1: "aggregate (probes 0 [store_uris, throwing_visitor, store_uris]) ''A'' [example_triple ''A'' ''B''] ([], [])
     = (Some (user_exception ''visitor failed''),
        ([''A''], [(0, ''A'', [example_triple ''A'' ''B'']), (1, ''A'', [example_triple ''A'' ''B''])]))"
    by (simp add: probe_def store_uris_def throwing_visitor_def)
  have h2: "aggregate (probes 0 [store_uris, store_uris, store_uris]) ''A'' [example_triple ''A'' ''B''] ([], [])
     = (None, ([''A'', ''A'', ''A''],
         [(0, ''A'', [example_triple ''A'' ''B'']), (1, ''A'', [example_triple ''A'' ''B'']),
          (2, ''A'', [example_triple ''A'' ''B''])]))"
    by (simp add: probe_def store_uris_def)
  from aggregate_fan_out [OF h1] aggregate_fan_out [OF h2] h1 h2 show ?thesis by blast
qed

section \<open>What a walk does, read from its log\<close>

lemma good_uris_simps [simp]:
  "good_uris [] = []"
  "good_uris (e # tr) = map fst (good_fetch_of e) @ good_uris tr"
  "good_uris (tr @ tr') = good_uris tr @ good_uris tr'"
  by (simp_all add: good_uris_def)

lemma good_failed_subset:
  "set (good_uris tr) \<subseteq> set (fetched_uris tr) \<and> set (failed_uris tr) \<subseteq> set (fetched_uris tr)"
proof (induction tr)
  case Nil
  show ?case by simp
next
  case (Cons e tr)
  then show ?case by (cases e rule: good_fetch_of.cases) auto
qed

lemma distinct_good_uris:
  "distinct (fetched_uris tr) \<Longrightarrow>
   distinct (good_uris tr) \<and> set (good_uris tr) \<inter> set (failed_uris tr) = {}"
proof (induction tr)
  case Nil
  show ?case by simp
next
  case (Cons e tr)
  from Cons.prems have d: "distinct (fetched_uris tr)"
    "set (fetch_of e) \<inter> set (fetched_uris tr) = {}" by auto
  from Cons.IH [OF d(1)] have IH: "distinct (good_uris tr)"
    "set (good_uris tr) \<inter> set (failed_uris tr) = {}" by auto
  from good_failed_subset [of tr] d(2) IH show ?case
    by (cases e rule: good_fetch_of.cases) auto
qed

lemma trace_inv_visited:
  "trace_inv pred s \<Longrightarrow> visited_uris (trace s) = good_uris (trace s)"
  by (simp add: trace_inv_def visited_uris_def good_uris_def case_prod_beta o_def)

lemma cbf_ok_mono: "cbf_step (p, ok) e = (p', True) \<Longrightarrow> ok"
  by (cases e) auto

lemma cbf_positions:
  "foldl cbf_step (None, True) tr = (p, True) \<Longrightarrow>
     (\<forall>i u res. i < length tr \<and> tr ! i = Fetch u res \<longrightarrow> 0 < i \<and> tr ! (i - 1) = Close u)
     \<and> (\<forall>v. p = Some v \<longrightarrow> tr \<noteq> [] \<and> last tr = Close v)"
proof (induction tr arbitrary: p rule: rev_induct)
  case Nil
  then show ?case by simp
next
  case (snoc e tr)
  obtain p0 ok0 where f: "foldl cbf_step (None, True) tr = (p0, ok0)"
    by (cases "foldl cbf_step (None, True) tr")
  with snoc.prems have step: "cbf_step (p0, ok0) e = (p, True)" by simp
  from cbf_ok_mono [OF step] have ok0 by simp
  with f snoc.IH [of p0] have IH:
    "\<forall>i u res. i < length tr \<and> tr ! i = Fetch u res \<longrightarrow> 0 < i \<and> tr ! (i - 1) = Close u"
    "\<forall>v. p0 = Some v \<longrightarrow> tr \<noteq> [] \<and> last tr = Close v" by auto
  have "\<forall>i u res. i < length (tr @ [e]) \<and> (tr @ [e]) ! i = Fetch u res
          \<longrightarrow> 0 < i \<and> (tr @ [e]) ! (i - 1) = Close u"
  proof (intro allI impI)
    fix i u res
    assume a: "i < length (tr @ [e]) \<and> (tr @ [e]) ! i = Fetch u res"
    show "0 < i \<and> (tr @ [e]) ! (i - 1) = Close u"
    proof (cases "i < length tr")
      case True
      with a IH(1) have "0 < i \<and> tr ! (i - 1) = Close u" by (simp add: nth_append)
      moreover from True have "i - 1 < length tr" by simp
      ultimately show ?thesis by (simp add: nth_append)
    next
      case False
      with a have i: "i = length tr" and e: "e = Fetch u res" by (auto simp: nth_append)
      with step \<open>ok0\<close> have "p0 = Some u" by simp
      with IH(2) have "tr \<noteq> []" "last tr = Close u" by auto
      with i show ?thesis by (simp add: nth_append last_conv_nth)
    qed
  qed
  moreover have "\<forall>v. p = Some v \<longrightarrow> tr @ [e] \<noteq> [] \<and> last (tr @ [e]) = Close v"
    using step by (cases e) auto
  ultimately show ?case by blast
qed


lemma option_run: "map_option f x = Some y \<Longrightarrow> \<exists>r. x = Some r \<and> f r = y"
  by (cases x) auto


text \<open>
  Claim C1. In the log of a call of the walker that has ended (by returning or by an
  exception), no uri occurs in two calls of the visitor, whatever the start uri, the
  library, the visitor and the predicate are. A uri taken from the front of the fringe that
  is already in the closed list is dropped: the iteration changes nothing but the fringe
  (no fetch, no call of the visitor, the world and the log are as before).
\<close>

theorem walk_visits_at_most_once:
  "(\<forall>r. walk lib func pred uri_str w = Some r \<longrightarrow>
        distinct (visited_uris (trace (final_state r))))
   \<and> (\<forall>s u rest. fringe s = u # rest \<and> u \<in> closed_list s \<longrightarrow>
        walk_body lib func pred u (s\<lparr>fringe := rest\<rparr>) = Inr (s\<lparr>fringe := rest\<rparr>)
        \<and> walk_loop lib func pred s = walk_loop lib func pred (s\<lparr>fringe := rest\<rparr>))"
proof (intro conjI allI impI)
  fix r assume "walk lib func pred uri_str w = Some r"
  from walk_trace_inv [OF this] have inv: "trace_inv pred (final_state r)" .
  then have "distinct (fetched_uris (trace (final_state r)))" by (simp add: trace_inv_def)
  with distinct_good_uris trace_inv_visited [OF inv]
  show "distinct (visited_uris (trace (final_state r)))" by simp
next
  fix s :: "'a walker_state" and u rest
  assume a: "fringe s = u # rest \<and> u \<in> closed_list s"
  then show "walk_body lib func pred u (s\<lparr>fringe := rest\<rparr>) = Inr (s\<lparr>fringe := rest\<rparr>)"
    by (simp add: walk_body_discard)
  with a show "walk_loop lib func pred s = walk_loop lib func pred (s\<lparr>fringe := rest\<rparr>)"
    by (subst walk_loop.simps) simp
qed

theorem walk_visits_at_most_once_witness:
  "map_option (\<lambda>r. visited_uris (trace (final_state r)))
     (walk (diamond_web :: string list raptor2) store_uris true_const_pred ''A'' [])
     = Some [''A'', ''B'', ''C'', ''D'']
   \<and> map_option (\<lambda>r. distinct (visited_uris (trace (final_state r))))
     (walk (diamond_web :: string list raptor2) store_uris true_const_pred ''A'' []) = Some True
   \<and> walk_body (diamond_web :: string list raptor2) store_uris true_const_pred ''A''
        \<lparr>closed_list = {''A''}, fringe = [], world = [], trace = []\<rparr>
      = Inr \<lparr>closed_list = {''A''}, fringe = [], world = [], trace = []\<rparr>"
proof -
  let ?W = "walk (diamond_web :: string list raptor2) store_uris true_const_pred ''A'' []"
  let ?s = "\<lparr>closed_list = {''A''}, fringe = [''A''], world = [] :: string list, trace = []\<rparr>"
  have run: "map_option (\<lambda>r. visited_uris (trace (final_state r))) ?W = Some [''A'', ''B'', ''C'', ''D'']"
    by code_simp
  then obtain r where r: "?W = Some r" using option_run by blast
  have inst: "(\<forall>r. ?W = Some r \<longrightarrow> distinct (visited_uris (trace (final_state r))))
    \<and> (\<forall>s u rest. fringe s = u # rest \<and> u \<in> closed_list s \<longrightarrow>
        walk_body (diamond_web :: string list raptor2) store_uris true_const_pred u (s\<lparr>fringe := rest\<rparr>) = Inr (s\<lparr>fringe := rest\<rparr>)
        \<and> walk_loop diamond_web store_uris true_const_pred s = walk_loop diamond_web store_uris true_const_pred (s\<lparr>fringe := rest\<rparr>))"
    by (rule walk_visits_at_most_once)
  from inst r have d: "distinct (visited_uris (trace (final_state r)))" by blast
  have "fringe ?s = ''A'' # [] \<and> ''A'' \<in> closed_list ?s" by simp
  with inst have "walk_body (diamond_web :: string list raptor2) store_uris true_const_pred ''A'' (?s\<lparr>fringe := []\<rparr>) = Inr (?s\<lparr>fringe := []\<rparr>)"
    by blast
  with run r d show ?thesis by simp
qed

text \<open>
  Claim C3. In the log of a call that has ended, the calls of the visitor are, in order,
  the fetches that returned true, each with the triples of that fetch filtered by the
  predicate: the admitted triples, in the order of the fetch, nothing added and nothing
  left out.
\<close>

theorem walk_filter_correct:
  assumes "walk lib func pred uri_str w = Some r"
  shows "visit_calls (trace (final_state r))
           = map (\<lambda>(u, ts). (u, filter pred ts)) (good_fetches (trace (final_state r)))"
  using walk_trace_inv [OF assms] by (simp add: trace_inv_def)

theorem walk_filter_correct_witness:
  "map_option (\<lambda>r. visit_calls (trace (final_state r)))
     (walk (diamond_web :: string list raptor2) store_uris rejects_C ''A'' [])
     = Some [(''A'', [example_triple ''A'' ''B'']), (''B'', [example_triple ''B'' ''D'']), (''D'', [])]
   \<and> map_option (\<lambda>r. good_fetches (trace (final_state r)))
     (walk (diamond_web :: string list raptor2) store_uris rejects_C ''A'' [])
     = Some [(''A'', [example_triple ''A'' ''B'', example_triple ''A'' ''C'']),
             (''B'', [example_triple ''B'' ''D'']), (''D'', [])]
   \<and> map_option (\<lambda>r. visit_calls (trace (final_state r))
          = map (\<lambda>(u, ts). (u, filter rejects_C ts)) (good_fetches (trace (final_state r))))
     (walk (diamond_web :: string list raptor2) store_uris rejects_C ''A'' []) = Some True"
proof -
  let ?W = "walk (diamond_web :: string list raptor2) store_uris rejects_C ''A'' []"
  have run: "map_option (\<lambda>r. visit_calls (trace (final_state r))) ?W
     = Some [(''A'', [example_triple ''A'' ''B'']), (''B'', [example_triple ''B'' ''D'']), (''D'', [])]"
    by code_simp
  have run2: "map_option (\<lambda>r. good_fetches (trace (final_state r))) ?W
     = Some [(''A'', [example_triple ''A'' ''B'', example_triple ''A'' ''C'']),
             (''B'', [example_triple ''B'' ''D'']), (''D'', [])]"
    by code_simp
  from run obtain r where r: "?W = Some r" using option_run by blast
  from walk_filter_correct [OF r] r run run2 show ?thesis by simp
qed

text \<open>
  Claim C6. In the log of a call that has ended, every fetch of a uri comes directly after
  the insertion of that uri into the closed list, no uri is fetched twice, and a uri whose
  fetch returned false is in the closed list although the visitor was never called for it.
\<close>

theorem walk_closed_before_fetch:
  assumes "walk lib func pred uri_str w = Some r"
  shows "(\<forall>i u res. i < length (trace (final_state r)) \<and> trace (final_state r) ! i = Fetch u res
            \<longrightarrow> 0 < i \<and> trace (final_state r) ! (i - 1) = Close u)
     \<and> close_before_fetch (trace (final_state r))
     \<and> distinct (fetched_uris (trace (final_state r)))
     \<and> set (failed_uris (trace (final_state r))) \<subseteq> closed_list (final_state r)
     \<and> set (failed_uris (trace (final_state r))) \<inter> set (visited_uris (trace (final_state r))) = {}"
proof -
  let ?tr = "trace (final_state r)"
  from walk_trace_inv [OF assms] have inv: "trace_inv pred (final_state r)" .
  then have f: "foldl cbf_step (None, True) ?tr = (None, True)"
    and d: "distinct (fetched_uris ?tr)" and c: "set (fetched_uris ?tr) = closed_list (final_state r)"
    by (simp_all add: trace_inv_def)
  from cbf_positions [OF f]
  have "\<forall>i u res. i < length ?tr \<and> ?tr ! i = Fetch u res \<longrightarrow> 0 < i \<and> ?tr ! (i - 1) = Close u"
    by blast
  moreover from f have "close_before_fetch ?tr" by (simp add: close_before_fetch_def)
  moreover from good_failed_subset [of ?tr] c have "set (failed_uris ?tr) \<subseteq> closed_list (final_state r)"
    by auto
  moreover from distinct_good_uris [OF d] trace_inv_visited [OF inv]
  have "set (failed_uris ?tr) \<inter> set (visited_uris ?tr) = {}" by auto
  ultimately show ?thesis using d by blast
qed

theorem walk_closed_before_fetch_witness:
  "map_option (\<lambda>r. trace (final_state r))
     (walk (failing_web :: string list raptor2) store_uris true_const_pred ''X'' [])
     = Some [Push ''X'', Close ''X'', Fetch ''X'' (Inr (False, []))]
   \<and> map_option (\<lambda>r. closed_list (final_state r))
     (walk (failing_web :: string list raptor2) store_uris true_const_pred ''X'' []) = Some {''X''}
   \<and> map_option (\<lambda>r. close_before_fetch (trace (final_state r))
         \<and> set (failed_uris (trace (final_state r))) \<subseteq> closed_list (final_state r))
     (walk (failing_web :: string list raptor2) store_uris true_const_pred ''X'' []) = Some True"
proof -
  let ?W = "walk (failing_web :: string list raptor2) store_uris true_const_pred ''X'' []"
  have run: "map_option (\<lambda>r. trace (final_state r)) ?W
     = Some [Push ''X'', Close ''X'', Fetch ''X'' (Inr (False, []))]"
    by code_simp
  have run2: "map_option (\<lambda>r. closed_list (final_state r)) ?W = Some {''X''}"
    by code_simp
  from run obtain r where r: "?W = Some r" using option_run by blast
  from walk_closed_before_fetch [OF r] r run run2 show ?thesis by simp
qed

section \<open>The invariant of the fringe\<close>

lemma first_occurrences_snoc:
  "first_occurrences (xs @ [x]) = (if x \<in> set xs then first_occurrences xs else first_occurrences xs @ [x])"
  by (simp add: first_occurrences_def)

lemma set_first_occurrences [simp]: "set (first_occurrences xs) = set xs"
  by (simp add: first_occurrences_def)

lemma first_occurrences_Nil [simp]: "first_occurrences [] = []"
  by (simp add: first_occurrences_def)

lemma good_filter_aux:
  "distinct (fetched_uris tr) \<Longrightarrow> set (good_uris tr) \<subseteq> G \<Longrightarrow>
   G \<inter> set (fetched_uris tr) \<subseteq> set (good_uris tr) \<Longrightarrow>
   filter (\<lambda>u. u \<in> G) (fetched_uris tr) = good_uris tr"
proof (induction tr)
  case Nil
  show ?case by simp
next
  case (Cons e tr)
  from Cons.prems(1) have d: "distinct (fetched_uris tr)"
    "set (fetch_of e) \<inter> set (fetched_uris tr) = {}" by auto
  have sub: "set (good_uris tr) \<subseteq> set (fetched_uris tr)" using good_failed_subset by blast
  from Cons.prems(2) have g: "set (good_uris tr) \<subseteq> G" by simp
  have "G \<inter> set (fetched_uris tr) \<subseteq> set (good_uris tr)"
    using Cons.prems(3) d(2) by (cases e rule: good_fetch_of.cases) auto
  from Cons.IH [OF d(1) g this] Cons.prems(2,3) d(2) sub show ?case
    by (cases e rule: good_fetch_of.cases) auto
qed

lemma good_filter:
  "distinct (fetched_uris tr) \<Longrightarrow>
   good_uris tr = filter (\<lambda>u. u \<in> set (good_uris tr)) (fetched_uris tr)"
  using good_filter_aux [of tr "set (good_uris tr)"] good_failed_subset [of tr] by auto

lemma fringe_invD:
  "fringe_inv start s \<Longrightarrow>
     \<exists>taken. pushed_uris (trace s) = taken @ fringe s
       \<and> fetched_uris (trace s) = first_occurrences taken"
  "fringe_inv start s \<Longrightarrow>
     pushed_uris (trace s) = start # concat (map (\<lambda>(u, ts). object_uris ts) (visit_calls (trace s)))"
  unfolding fringe_inv_def by blast+

lemma walk_body_fringe_inv:
  assumes t: "trace_inv pred s" and f: "fringe_inv start s" and q: "fringe s = u # rest"
    and b: "walk_body lib func pred u (s\<lparr>fringe := rest\<rparr>) = Inr s'"
  shows "fringe_inv start s'"
proof -
  from fringe_invD(1) [OF f] q obtain taken where taken: "pushed_uris (trace s) = taken @ u # rest"
    "fetched_uris (trace s) = first_occurrences taken"
    by auto
  from fringe_invD(2) [OF f]
  have acc: "pushed_uris (trace s) = start # concat (map (\<lambda>(u, ts). object_uris ts) (visit_calls (trace s)))" .
  from t taken(2) have closed: "closed_list s = set taken" by (simp add: trace_inv_def)
  let ?s1 = "s\<lparr>fringe := rest\<rparr>"
  show ?thesis
  proof (cases rule: walk_body_cases [of u ?s1 lib func pred])
    case discard
    with b have s': "s' = ?s1" by simp
    from discard closed have "u \<in> set taken" by simp
    then have "fetched_uris (trace s') = first_occurrences (taken @ [u])"
      using taken(2) s' by (simp add: first_occurrences_snoc)
    moreover have "pushed_uris (trace s') = (taken @ [u]) @ fringe s'" using taken(1) s' by simp
    ultimately show ?thesis using acc s' unfolding fringe_inv_def by (auto simp del: append_assoc)
  next
    case (fetch_throws e w1)
    with b show ?thesis by simp
  next
    case (fetch_fails ts w1)
    with b have s': "s' = ?s1\<lparr>closed_list := insert u (closed_list ?s1), world := w1,
                trace := trace ?s1 @ [Close u, Fetch u (Inr (False, ts))]\<rparr>" by simp
    from fetch_fails closed have "u \<notin> set taken" by simp
    then have "fetched_uris (trace s') = first_occurrences (taken @ [u])"
      using taken(2) s' by (simp add: first_occurrences_snoc)
    moreover have "pushed_uris (trace s') = (taken @ [u]) @ fringe s'" using taken(1) s' by simp
    moreover have "pushed_uris (trace s') = start # concat (map (\<lambda>(u, ts). object_uris ts) (visit_calls (trace s')))"
      using acc s' by simp
    ultimately show ?thesis unfolding fringe_inv_def by (auto simp del: append_assoc)
  next
    case (visitor_throws ts w1 e w2)
    with b show ?thesis by simp
  next
    case (visits ts w1 w2)
    with b have s': "s' = ?s1\<lparr>closed_list := insert u (closed_list ?s1), world := w2,
                fringe := fringe ?s1 @ object_uris (filter pred ts),
                trace := trace ?s1 @ [Close u, Fetch u (Inr (True, ts)), Visit u (filter pred ts)]
                           @ map Push (object_uris (filter pred ts))\<rparr>" by simp
    from visits closed have "u \<notin> set taken" by simp
    then have "fetched_uris (trace s') = first_occurrences (taken @ [u])"
      using taken(2) s' by (simp add: first_occurrences_snoc)
    moreover have "pushed_uris (trace s') = (taken @ [u]) @ fringe s'" using taken(1) s' by simp
    moreover have "pushed_uris (trace s') = start # concat (map (\<lambda>(u, ts). object_uris ts) (visit_calls (trace s')))"
      using acc s' by simp
    ultimately show ?thesis unfolding fringe_inv_def by (auto simp del: append_assoc)
  qed
qed

lemma fringe_inv_init: "fringe_inv start (walk_init start w)"
  by (simp add: fringe_inv_def walk_init_def)

text \<open>What holds at the end of a call, returned or thrown.\<close>

lemma walk_final:
  assumes "walk lib func pred start w = Some r"
  shows "trace_inv pred (final_state r)
    \<and> (\<exists>taken rest. pushed_uris (trace (final_state r)) = taken @ rest
          \<and> fetched_uris (trace (final_state r)) = first_occurrences taken
          \<and> (r = Inr (final_state r) \<longrightarrow> rest = []))
    \<and> set (pushed_uris (trace (final_state r)))
         \<subseteq> insert start (\<Union>(u, ts) \<in> set (visit_calls (trace (final_state r))). set (object_uris ts))
    \<and> (r = Inr (final_state r) \<longrightarrow> fringe (final_state r) = []
          \<and> pushed_uris (trace (final_state r))
            = start # concat (map (\<lambda>(u, ts). object_uris ts) (visit_calls (trace (final_state r)))))"
proof -
  let ?P = "\<lambda>s. trace_inv pred s \<and> fringe_inv start s"
  let ?goal = "\<lambda>r. (\<exists>taken rest. pushed_uris (trace (final_state r)) = taken @ rest
          \<and> fetched_uris (trace (final_state r)) = first_occurrences taken
          \<and> (r = Inr (final_state r) \<longrightarrow> rest = []))
    \<and> set (pushed_uris (trace (final_state r)))
         \<subseteq> insert start (\<Union>(u, ts) \<in> set (visit_calls (trace (final_state r))). set (object_uris ts))
    \<and> (r = Inr (final_state r) \<longrightarrow> fringe (final_state r) = []
          \<and> pushed_uris (trace (final_state r))
            = start # concat (map (\<lambda>(u, ts). object_uris ts) (visit_calls (trace (final_state r)))))"
  from assms have run: "walk_loop lib func pred (walk_init start w) = Some r"
    by (simp add: walk_def)
  have init: "?P (walk_init start w)" by (simp add: trace_inv_init fringe_inv_init)
  have "?goal r"
  proof (rule walk_loop_final [where P = ?P, OF run init])
    fix s :: "'a walker_state" and u rest s'
    assume P: "?P s" and q: "fringe s = u # rest"
      and b: "walk_body lib func pred u (s\<lparr>fringe := rest\<rparr>) = Inr s'"
    from P have "trace_inv pred (s\<lparr>fringe := rest\<rparr>)" by simp
    from walk_body_trace_inv [OF this, of lib func u] b have "trace_inv pred s'" by simp
    moreover from walk_body_fringe_inv [OF _ _ q b] P have "fringe_inv start s'" by blast
    ultimately show "?P s'" by simp
  next
    fix s' assume r: "r = Inr s'" and e: "fringe s' = []" and P: "?P s'"
    from P have fi: "fringe_inv start s'" by simp
    from fringe_invD(1) [OF fi] e obtain taken where tk: "pushed_uris (trace s') = taken"
      "fetched_uris (trace s') = first_occurrences taken"
      by auto
    from fringe_invD(2) [OF fi]
    have acc: "pushed_uris (trace s') = start # concat (map (\<lambda>(u, ts). object_uris ts) (visit_calls (trace s')))" .
    from tk have "\<exists>taken rest. pushed_uris (trace s') = taken @ rest
          \<and> fetched_uris (trace s') = first_occurrences taken \<and> rest = []" by simp
    then have g1: "\<exists>taken rest. pushed_uris (trace (final_state r)) = taken @ rest
          \<and> fetched_uris (trace (final_state r)) = first_occurrences taken
          \<and> (r = Inr (final_state r) \<longrightarrow> rest = [])" unfolding r by simp
    have "set (pushed_uris (trace s'))
         \<subseteq> insert start (\<Union>(u, ts) \<in> set (visit_calls (trace s')). set (object_uris ts))"
      by (subst acc) auto
    then have g2: "set (pushed_uris (trace (final_state r)))
         \<subseteq> insert start (\<Union>(u, ts) \<in> set (visit_calls (trace (final_state r))). set (object_uris ts))"
      unfolding r by simp
    have g3: "r = Inr (final_state r) \<longrightarrow> fringe (final_state r) = []
          \<and> pushed_uris (trace (final_state r))
            = start # concat (map (\<lambda>(u, ts). object_uris ts) (visit_calls (trace (final_state r))))"
      unfolding r using e acc by simp
    from g1 g2 g3 show "?goal r" by blast
  next
    fix s0 :: "'a walker_state" and u rest th
    assume P: "?P s0" and q: "fringe s0 = u # rest"
      and b: "walk_body lib func pred u (s0\<lparr>fringe := rest\<rparr>) = Inl th" and r: "r = Inl th"
    from P have fi: "fringe_inv start s0" by simp
    from fringe_invD(1) [OF fi] q obtain taken where taken: "pushed_uris (trace s0) = taken @ u # rest"
      "fetched_uris (trace s0) = first_occurrences taken"
      by auto
    from fringe_invD(2) [OF fi]
    have acc: "pushed_uris (trace s0) = start # concat (map (\<lambda>(u, ts). object_uris ts) (visit_calls (trace s0)))" .
    from P taken(2) have closed: "closed_list s0 = set taken" by (simp add: trace_inv_def)
    have sub0: "set (pushed_uris (trace s0))
         \<subseteq> insert start (\<Union>(u, ts) \<in> set (visit_calls (trace s0)). set (object_uris ts))"
      by (subst acc) auto
    let ?s1 = "s0\<lparr>fringe := rest\<rparr>"
    show "?goal r"
    proof (cases rule: walk_body_cases [of u ?s1 lib func pred])
      case discard
      with b show ?thesis by simp
    next
      case (fetch_throws e w1)
      with b r have fs: "final_state r = ?s1\<lparr>closed_list := insert u (closed_list ?s1), world := w1,
                   trace := trace ?s1 @ [Close u, Fetch u (Inl e)]\<rparr>" by auto
      from fetch_throws closed have "u \<notin> set taken" by simp
      then have "fetched_uris (trace (final_state r)) = first_occurrences (taken @ [u])"
        using taken(2) fs by (simp add: first_occurrences_snoc)
      moreover have "pushed_uris (trace (final_state r)) = (taken @ [u]) @ rest" using taken(1) fs by simp
      ultimately have "\<exists>taken rest. pushed_uris (trace (final_state r)) = taken @ rest
          \<and> fetched_uris (trace (final_state r)) = first_occurrences taken" by blast
      moreover have "set (pushed_uris (trace (final_state r)))
         \<subseteq> insert start (\<Union>(u, ts) \<in> set (visit_calls (trace (final_state r))). set (object_uris ts))"
        using sub0 fs by simp
      ultimately show ?thesis using r by simp
    next
      case (fetch_fails ts w1)
      with b show ?thesis by simp
    next
      case (visitor_throws ts w1 e w2)
      with b r have fs: "final_state r = ?s1\<lparr>closed_list := insert u (closed_list ?s1), world := w2,
                   trace := trace ?s1 @ [Close u, Fetch u (Inr (True, ts)), Visit u (filter pred ts)]\<rparr>"
        by auto
      from visitor_throws closed have "u \<notin> set taken" by simp
      then have "fetched_uris (trace (final_state r)) = first_occurrences (taken @ [u])"
        using taken(2) fs by (simp add: first_occurrences_snoc)
      moreover have "pushed_uris (trace (final_state r)) = (taken @ [u]) @ rest" using taken(1) fs by simp
      ultimately have "\<exists>taken rest. pushed_uris (trace (final_state r)) = taken @ rest
          \<and> fetched_uris (trace (final_state r)) = first_occurrences taken" by blast
      moreover have "set (pushed_uris (trace (final_state r)))
         \<subseteq> insert start (\<Union>(u, ts) \<in> set (visit_calls (trace (final_state r))). set (object_uris ts))"
        using sub0 fs by auto
      ultimately show ?thesis using r by simp
    next
      case (visits ts w1 w2)
      with b show ?thesis by simp
    qed
  qed
  with walk_trace_inv [OF assms] show ?thesis by simp
qed

section \<open>Failed fetches\<close>

lemma visited_uris_simps [simp]:
  "visited_uris [] = []"
  "visited_uris (e # tr) = map fst (visit_of e) @ visited_uris tr"
  "visited_uris (tr @ tr') = visited_uris tr @ visited_uris tr'"
  "visited_uris (map Push us) = []"
  by (simp_all add: visited_uris_def)

lemma walk_loop_drain:
  "set (fringe s) \<subseteq> closed_list s \<Longrightarrow> walk_loop lib func pred s = Some (Inr (s\<lparr>fringe := []\<rparr>))"
proof (induction "fringe s" arbitrary: s)
  case Nil
  then show ?case by (subst walk_loop.simps) simp
next
  case (Cons u rest)
  from Cons.hyps(2) [symmetric] Cons.prems have u: "u \<in> closed_list s" by simp
  have "walk_loop lib func pred s = walk_loop lib func pred (s\<lparr>fringe := rest\<rparr>)"
    using Cons.hyps(2) [symmetric] u by (subst walk_loop.simps) (simp add: walk_body_discard)
  also have "\<dots> = Some (Inr (s\<lparr>fringe := rest\<rparr>\<lparr>fringe := []\<rparr>))"
    using Cons.hyps(2) [symmetric] Cons.prems by (intro Cons.hyps(1)) auto
  finally show ?case by simp
qed

lemma walk_loop_visit_step:
  assumes q: "fringe s = u # rest" and fresh: "u \<notin> closed_list s"
    and call: "rdf_web_parser_call lib u [] (world s) = (Inr (True, ts), w1)"
    and nt: "never_throws func"
  shows "\<exists>w2 evs. walk_loop lib func pred s
           = walk_loop lib func pred
               (s\<lparr>closed_list := insert u (closed_list s), world := w2,
                  fringe := rest @ object_uris (filter pred ts),
                  trace := trace s @ evs\<rparr>)
         \<and> visited_uris evs = [u]"
proof -
  obtain x w2 where f: "func u (filter pred ts) w1 = (x, w2)" by (cases "func u (filter pred ts) w1")
  with nt have f': "func u (filter pred ts) w1 = (None, w2)"
    unfolding never_throws_def by (metis fst_conv)
  let ?s1 = "s\<lparr>fringe := rest\<rparr>"
  let ?evs = "[Close u, Fetch u (Inr (True, ts)), Visit u (filter pred ts)]
                           @ map Push (object_uris (filter pred ts))"
  from fresh call have "u \<notin> closed_list ?s1"
    "rdf_web_parser_call lib u [] (world ?s1) = (Inr (True, ts), w1)" by simp_all
  from walk_body_visits [of u ?s1 lib ts w1 func pred w2, OF this f']
  have "walk_loop lib func pred s
           = walk_loop lib func pred
               (s\<lparr>closed_list := insert u (closed_list s), world := w2,
                  fringe := rest @ object_uris (filter pred ts),
                  trace := trace s @ ?evs\<rparr>)"
    using q by (subst walk_loop.simps) simp
  moreover have "visited_uris ?evs = [u]" by simp
  ultimately show ?thesis by blast
qed

lemma count_list_distinct: "distinct xs \<Longrightarrow> x \<in> set xs \<Longrightarrow> count_list xs x = 1"
  by (induction xs) auto

text \<open>
  Claim C4, as amended. If the fetch of a uri X returned false during a call that has
  ended, then the visitor was never called for X, X was fetched exactly once and is in the
  closed list, and X contributed no edge: every uri pushed onto the fringe is the start uri
  or the object of a triple handed to the visitor. (X itself may be pushed again when a
  later node refers to it; such an entry is dropped when it reaches the front, by C1.)
\<close>

theorem walk_failed_fetch_absorbed:
  assumes "walk lib func pred start w = Some r"
    and "X \<in> set (failed_uris (trace (final_state r)))"
  shows "X \<notin> set (visited_uris (trace (final_state r)))
    \<and> count_list (fetched_uris (trace (final_state r))) X = 1
    \<and> X \<in> closed_list (final_state r)
    \<and> set (pushed_uris (trace (final_state r)))
         \<subseteq> insert start (\<Union>(u, ts) \<in> set (visit_calls (trace (final_state r))). set (object_uris ts))"
proof -
  let ?tr = "trace (final_state r)"
  from walk_final [OF assms(1)] have inv: "trace_inv pred (final_state r)"
    and sub: "set (pushed_uris ?tr)
         \<subseteq> insert start (\<Union>(u, ts) \<in> set (visit_calls ?tr). set (object_uris ts))"
    by blast+
  from inv have d: "distinct (fetched_uris ?tr)"
    and c: "set (fetched_uris ?tr) = closed_list (final_state r)" by (simp_all add: trace_inv_def)
  from good_failed_subset [of ?tr] assms(2) have X: "X \<in> set (fetched_uris ?tr)" by blast
  from distinct_good_uris [OF d] trace_inv_visited [OF inv] assms(2)
  have "X \<notin> set (visited_uris ?tr)" by auto
  with count_list_distinct [OF d X] X c sub show ?thesis by blast
qed

text \<open>
  Claim C4, as stated, fails. In the web where A refers to X and B, the fetch of X fails
  and B refers to X, the walk from A pushes X a second time, after the failed fetch of X.
\<close>

theorem walk_failed_fetch_reenqueued_counterexample:
  "map_option (\<lambda>r. trace (final_state r))
     (walk (failing_web :: string list raptor2) store_uris true_const_pred ''A'' [])
   = Some [Push ''A'',
           Close ''A'', Fetch ''A'' (Inr (True, [example_triple ''A'' ''X'', example_triple ''A'' ''B''])),
           Visit ''A'' [example_triple ''A'' ''X'', example_triple ''A'' ''B''],
           Push ''X'', Push ''B'',
           Close ''X'', Fetch ''X'' (Inr (False, [])),
           Close ''B'', Fetch ''B'' (Inr (True, [example_triple ''B'' ''X''])),
           Visit ''B'' [example_triple ''B'' ''X''],
           Push ''X'']"
  by code_simp

theorem walk_failed_fetch_absorbed_witness:
  "map_option (\<lambda>r. failed_uris (trace (final_state r)))
     (walk (failing_web :: string list raptor2) store_uris true_const_pred ''A'' []) = Some [''X'']
   \<and> map_option (\<lambda>r. visited_uris (trace (final_state r)))
     (walk (failing_web :: string list raptor2) store_uris true_const_pred ''A'' []) = Some [''A'', ''B'']
   \<and> map_option (\<lambda>r. fetched_uris (trace (final_state r)))
     (walk (failing_web :: string list raptor2) store_uris true_const_pred ''A'' [])
       = Some [''A'', ''X'', ''B'']
   \<and> map_option (\<lambda>r. ''X'' \<notin> set (visited_uris (trace (final_state r)))
         \<and> count_list (fetched_uris (trace (final_state r))) ''X'' = 1
         \<and> ''X'' \<in> closed_list (final_state r))
     (walk (failing_web :: string list raptor2) store_uris true_const_pred ''A'' []) = Some True"
proof -
  let ?W = "walk (failing_web :: string list raptor2) store_uris true_const_pred ''A'' []"
  have run: "map_option (\<lambda>r. failed_uris (trace (final_state r))) ?W = Some [''X'']"
    by code_simp
  have run2: "map_option (\<lambda>r. visited_uris (trace (final_state r))) ?W = Some [''A'', ''B'']"
    by code_simp
  have run3: "map_option (\<lambda>r. fetched_uris (trace (final_state r))) ?W = Some [''A'', ''X'', ''B'']"
    by code_simp
  from run obtain r where r: "?W = Some r" and f: "failed_uris (trace (final_state r)) = [''X'']"
    using option_run by blast
  from f have "''X'' \<in> set (failed_uris (trace (final_state r)))" by simp
  from walk_failed_fetch_absorbed [OF r this] r run run2 run3 show ?thesis by simp
qed

section \<open>Termination\<close>

lemma visit_step_within:
  assumes q: "fringe s = u # rest" and fresh: "u \<notin> closed_list s"
    and ref: "refers_within lib pred u S" and nt: "never_throws func"
  shows "\<exists>s' vs. walk_loop lib func pred s = walk_loop lib func pred s'
     \<and> closed_list s' = insert u (closed_list s) \<and> fringe s' = rest @ vs \<and> set vs \<subseteq> S
     \<and> visited_uris (trace s') = visited_uris (trace s) @ [u]"
proof -
  from ref obtain ts w1 where call: "rdf_web_parser_call lib u [] (world s) = (Inr (True, ts), w1)"
    and vs: "set (object_uris (filter pred ts)) \<subseteq> S"
    unfolding refers_within_def by blast
  from walk_loop_visit_step [OF q fresh call nt, of pred] obtain w2 evs
    where step: "walk_loop lib func pred s
           = walk_loop lib func pred
               (s\<lparr>closed_list := insert u (closed_list s), world := w2,
                  fringe := rest @ object_uris (filter pred ts),
                  trace := trace s @ evs\<rparr>)"
      and v: "visited_uris evs = [u]" by blast
  let ?s' = "s\<lparr>closed_list := insert u (closed_list s), world := w2,
                  fringe := rest @ object_uris (filter pred ts),
                  trace := trace s @ evs\<rparr>"
  have "closed_list ?s' = insert u (closed_list s)" "fringe ?s' = rest @ object_uris (filter pred ts)"
    "visited_uris (trace ?s') = visited_uris (trace s) @ [u]" using v by simp_all
  with step vs show ?thesis by blast
qed

lemma visit_step_to:
  assumes q: "fringe s = u # rest" and fresh: "u \<notin> closed_list s"
    and ref: "refers_to lib pred u vs" and nt: "never_throws func"
  shows "\<exists>s'. walk_loop lib func pred s = walk_loop lib func pred s'
     \<and> closed_list s' = insert u (closed_list s) \<and> fringe s' = rest @ vs
     \<and> visited_uris (trace s') = visited_uris (trace s) @ [u]"
proof -
  from ref obtain ts w1 where call: "rdf_web_parser_call lib u [] (world s) = (Inr (True, ts), w1)"
    and vs: "object_uris (filter pred ts) = vs"
    unfolding refers_to_def by blast
  from walk_loop_visit_step [OF q fresh call nt, of pred] obtain w2 evs
    where step: "walk_loop lib func pred s
           = walk_loop lib func pred
               (s\<lparr>closed_list := insert u (closed_list s), world := w2,
                  fringe := rest @ object_uris (filter pred ts),
                  trace := trace s @ evs\<rparr>)"
      and v: "visited_uris evs = [u]" by blast
  let ?s' = "s\<lparr>closed_list := insert u (closed_list s), world := w2,
                  fringe := rest @ object_uris (filter pred ts),
                  trace := trace s @ evs\<rparr>"
  have "closed_list ?s' = insert u (closed_list s)" "fringe ?s' = rest @ vs"
    "visited_uris (trace ?s') = visited_uris (trace s) @ [u]" using v vs by simp_all
  with step show ?thesis by blast
qed


lemma wf_walk_measure:
  "wf (inv_image (less_than <*lex*> less_than)
         (\<lambda>s :: 'w walker_state. (card (R - closed_list s), length (fringe s))))"
  by (intro wf_inv_image wf_lex_prod wf_less_than)

lemma walk_loop_terminates:
  assumes fin: "finite R" and cl: "closed_under_references lib pred R"
  shows "set (fringe s) \<subseteq> R \<Longrightarrow> \<exists>r. walk_loop lib func pred s = Some r"
proof (induction s rule: wf_induct_rule [OF wf_walk_measure [of R]])
  case (1 s)
  show ?case
  proof (cases "fringe s")
    case Nil
    then show ?thesis by (subst walk_loop.simps) simp
  next
    case (Cons u rest)
    let ?s1 = "s\<lparr>fringe := rest\<rparr>"
    from Cons "1.prems" have uR: "u \<in> R" and restR: "set rest \<subseteq> R" by auto
    have unfold: "walk_loop lib func pred s =
        (case walk_body lib func pred u ?s1 of
           Inl thrown \<Rightarrow> Some (Inl thrown)
         | Inr s' \<Rightarrow> walk_loop lib func pred s')"
      using Cons by (subst walk_loop.simps) simp
    have less: "card (R - insert u (closed_list s)) < card (R - closed_list s)"
      if "u \<notin> closed_list s"
    proof -
      have eq: "R - insert u (closed_list s) = (R - closed_list s) - {u}" by auto
      have "u \<in> R - closed_list s" using uR that by simp
      moreover have "finite (R - closed_list s)" using fin by simp
      ultimately have "card ((R - closed_list s) - {u}) < card (R - closed_list s)"
        by (rule card_Diff1_less [rotated])
      with eq show ?thesis by simp
    qed
    show ?thesis
    proof (cases rule: walk_body_cases [of u ?s1 lib func pred])
      case discard
      have "(?s1, s) \<in> inv_image (less_than <*lex*> less_than)
         (\<lambda>s. (card (R - closed_list s), length (fringe s)))"
        using Cons by simp
      from "1.IH" [OF this] restR obtain r where "walk_loop lib func pred ?s1 = Some r" by auto
      with unfold discard show ?thesis by simp
    next
      case (fetch_throws e w1)
      with unfold show ?thesis by simp
    next
      case (fetch_fails ts w1)
      let ?s' = "?s1\<lparr>closed_list := insert u (closed_list ?s1), world := w1,
                trace := trace ?s1 @ [Close u, Fetch u (Inr (False, ts))]\<rparr>"
      from fetch_fails(1) have "u \<notin> closed_list s" by simp
      from less [OF this] have "(?s', s) \<in> inv_image (less_than <*lex*> less_than)
         (\<lambda>s. (card (R - closed_list s), length (fringe s)))" by simp
      from "1.IH" [OF this] restR obtain r where "walk_loop lib func pred ?s' = Some r" by auto
      with unfold fetch_fails show ?thesis by simp
    next
      case (visitor_throws ts w1 e w2)
      with unfold show ?thesis by simp
    next
      case (visits ts w1 w2)
      let ?s' = "?s1\<lparr>closed_list := insert u (closed_list ?s1), world := w2,
                fringe := fringe ?s1 @ object_uris (filter pred ts),
                trace := trace ?s1 @ [Close u, Fetch u (Inr (True, ts)), Visit u (filter pred ts)]
                           @ map Push (object_uris (filter pred ts))\<rparr>"
      from visits(1) have "u \<notin> closed_list s" by simp
      from less [OF this] have m: "(?s', s) \<in> inv_image (less_than <*lex*> less_than)
         (\<lambda>s. (card (R - closed_list s), length (fringe s)))" by simp
      from cl uR visits(2) have "set (object_uris (filter pred ts)) \<subseteq> R"
        unfolding closed_under_references_def by blast
      with restR have "set (fringe ?s') \<subseteq> R" by simp
      from "1.IH" [OF m this] obtain r where "walk_loop lib func pred ?s' = Some r" by auto
      with unfold visits show ?thesis by simp
    qed
  qed
qed

lemma walk_cycle:
  assumes d: "A \<noteq> B" and a: "refers_to lib pred A [B]" and b: "refers_to lib pred B [A]"
    and nt: "never_throws func"
  shows "\<exists>s. walk lib func pred A w = Some (Inr s) \<and> visited_uris (trace s) = [A, B]"
proof -
  let ?s0 = "walk_init A w"
  have s0: "fringe ?s0 = A # []" "A \<notin> closed_list ?s0" "closed_list ?s0 = {}"
    "visited_uris (trace ?s0) = []" by (simp_all add: walk_init_def)
  from visit_step_to [OF s0(1,2) a nt] s0 obtain s1
    where s1: "walk_loop lib func pred ?s0 = walk_loop lib func pred s1"
      "closed_list s1 = {A}" "fringe s1 = B # []" "visited_uris (trace s1) = [A]" by auto
  from d s1(2) have "B \<notin> closed_list s1" by auto
  from visit_step_to [OF s1(3) this b nt] s1 obtain s2
    where s2: "walk_loop lib func pred s1 = walk_loop lib func pred s2"
      "closed_list s2 = {B, A}" "fringe s2 = [A]" "visited_uris (trace s2) = [A, B]" by auto
  from s2(2,3) have "set (fringe s2) \<subseteq> closed_list s2" by auto
  from walk_loop_drain [OF this]
  have "walk_loop lib func pred s2 = Some (Inr (s2\<lparr>fringe := []\<rparr>))" .
  with s1(1) s2(1) have "walk lib func pred A w = Some (Inr (s2\<lparr>fringe := []\<rparr>))"
    by (simp add: walk_def)
  moreover have "visited_uris (trace (s2\<lparr>fringe := []\<rparr>)) = [A, B]" using s2(4) by simp
  ultimately show ?thesis by blast
qed

text \<open>
  Claim C2. If the start uri lies in a finite set of uris that is closed under the
  references of good fetches (the uris reachable from the start are finitely many), the
  call of the walker ends: it returns, or it leaves with an exception of the parser or of
  the visitor. In particular, in a web where A refers to B and B to A, with a visitor that
  does not throw, the call returns and the visitor has been called for A and then for B,
  once each.
\<close>

theorem walk_terminates:
  "(finite R \<and> start \<in> R \<and> closed_under_references lib pred R \<longrightarrow>
      (\<exists>r. walk lib func pred start w = Some r))
   \<and> (A \<noteq> B \<and> refers_to lib pred A [B] \<and> refers_to lib pred B [A] \<and> never_throws func \<longrightarrow>
      (\<exists>s. walk lib func pred A w = Some (Inr s) \<and> visited_uris (trace s) = [A, B]))"
proof (intro conjI impI)
  assume a: "finite R \<and> start \<in> R \<and> closed_under_references lib pred R"
  then have "set (fringe (walk_init start w)) \<subseteq> R" by (simp add: walk_init_def)
  from walk_loop_terminates [OF _ _ this, of lib pred func] a
  show "\<exists>r. walk lib func pred start w = Some r" by (simp add: walk_def)
next
  assume "A \<noteq> B \<and> refers_to lib pred A [B] \<and> refers_to lib pred B [A] \<and> never_throws func"
  then show "\<exists>s. walk lib func pred A w = Some (Inr s) \<and> visited_uris (trace s) = [A, B]"
    using walk_cycle [of A B lib pred func w] by blast
qed

lemma cyclic_calls:
  "rdf_web_parser_call cyclic_web ''A'' [] w = (Inr (True, [example_triple ''A'' ''B'']), w)"
  "rdf_web_parser_call cyclic_web ''B'' [] w = (Inr (True, [example_triple ''B'' ''A'']), w)"
  by (simp_all add: cyclic_web_def example_web_def rdf_web_parser_call_def handle_statement_def
      make_rdf_term_def example_statement_def example_uri_term_def example_triple_def new_rdf_uri_def
      RAPTOR_TERM_TYPE_URI_def)

theorem walk_terminates_witness:
  "finite {''A'', ''B''} \<and> ''A'' \<in> {''A'', ''B''}
   \<and> closed_under_references (cyclic_web :: string list raptor2) true_const_pred {''A'', ''B''}
   \<and> ''A'' \<noteq> ''B''
   \<and> refers_to (cyclic_web :: string list raptor2) true_const_pred ''A'' [''B'']
   \<and> refers_to (cyclic_web :: string list raptor2) true_const_pred ''B'' [''A'']
   \<and> never_throws store_uris
   \<and> (\<exists>s. walk (cyclic_web :: string list raptor2) store_uris true_const_pred ''A'' [] = Some (Inr s)
         \<and> visited_uris (trace s) = [''A'', ''B''])
   \<and> map_option (\<lambda>r. (visited_uris (trace (final_state r)), world (final_state r), fringe (final_state r)))
       (walk (cyclic_web :: string list raptor2) store_uris true_const_pred ''A'' [])
       = Some ([''A'', ''B''], [''A'', ''B''], [])"
proof -
  have h1: "finite {''A'', ''B''} \<and> ''A'' \<in> {''A'', ''B''}" by simp
  have h3: "closed_under_references (cyclic_web :: string list raptor2) true_const_pred {''A'', ''B''}"
    unfolding closed_under_references_def
    by (auto simp: cyclic_calls true_const_pred_def example_triple_def to_std_string_id)
  have h4: "''A'' \<noteq> ''B''" by simp
  have h5: "refers_to (cyclic_web :: string list raptor2) true_const_pred ''A'' [''B'']"
    "refers_to (cyclic_web :: string list raptor2) true_const_pred ''B'' [''A'']"
    by (simp_all add: refers_to_def cyclic_calls true_const_pred_def example_triple_def to_std_string_id)
  have h6: "never_throws store_uris" by (simp add: never_throws_def store_uris_def)
  have run: "map_option (\<lambda>r. (visited_uris (trace (final_state r)), world (final_state r), fringe (final_state r)))
       (walk (cyclic_web :: string list raptor2) store_uris true_const_pred ''A'' [])
       = Some ([''A'', ''B''], [''A'', ''B''], [])"
    by code_simp
  from walk_terminates [of "{''A'', ''B''}" "''A''" "cyclic_web :: string list raptor2"
      true_const_pred store_uris "[]" "''A''" "''B''"] h1 h3 h4 h5 h6
  have "\<exists>s. walk (cyclic_web :: string list raptor2) store_uris true_const_pred ''A'' [] = Some (Inr s)
         \<and> visited_uris (trace s) = [''A'', ''B'']" by blast
  with h1 h3 h4 h5 h6 run show ?thesis by blast
qed

section \<open>The order of discovery\<close>

lemma walk_diamond:
  assumes d: "distinct [A, B, C, D]"
    and a: "refers_to lib pred A [B, C]" and b: "refers_to lib pred B [D]"
    and c: "refers_to lib pred C [D]" and dd: "refers_within lib pred D {A, B, C, D}"
    and nt: "never_throws func"
  shows "\<exists>s. walk lib func pred A w = Some (Inr s) \<and> visited_uris (trace s) = [A, B, C, D]"
proof -
  let ?s0 = "walk_init A w"
  have s0: "fringe ?s0 = A # []" "A \<notin> closed_list ?s0" "closed_list ?s0 = {}"
    "visited_uris (trace ?s0) = []" by (simp_all add: walk_init_def)
  from visit_step_to [OF s0(1,2) a nt] s0 obtain s1
    where s1: "walk_loop lib func pred ?s0 = walk_loop lib func pred s1"
      "closed_list s1 = {A}" "fringe s1 = B # [C]" "visited_uris (trace s1) = [A]" by auto
  from d s1(2) have "B \<notin> closed_list s1" by auto
  from visit_step_to [OF s1(3) this b nt] s1 obtain s2
    where s2: "walk_loop lib func pred s1 = walk_loop lib func pred s2"
      "closed_list s2 = {B, A}" "fringe s2 = C # [D]" "visited_uris (trace s2) = [A, B]" by auto
  from d s2(2) have "C \<notin> closed_list s2" by auto
  from visit_step_to [OF s2(3) this c nt] s2 obtain s3
    where s3: "walk_loop lib func pred s2 = walk_loop lib func pred s3"
      "closed_list s3 = {C, B, A}" "fringe s3 = D # [D]" "visited_uris (trace s3) = [A, B, C]" by auto
  from d s3(2) have "D \<notin> closed_list s3" by auto
  from visit_step_within [OF s3(3) this dd nt] s3 obtain s4 vs
    where s4: "walk_loop lib func pred s3 = walk_loop lib func pred s4"
      "closed_list s4 = {D, C, B, A}" "fringe s4 = [D] @ vs" "set vs \<subseteq> {A, B, C, D}"
      "visited_uris (trace s4) = [A, B, C, D]" by auto
  from s4(2,3,4) have "set (fringe s4) \<subseteq> closed_list s4" by auto
  from walk_loop_drain [OF this]
  have "walk_loop lib func pred s4 = Some (Inr (s4\<lparr>fringe := []\<rparr>))" .
  with s1(1) s2(1) s3(1) s4(1) have "walk lib func pred A w = Some (Inr (s4\<lparr>fringe := []\<rparr>))"
    by (simp add: walk_def)
  moreover have "visited_uris (trace (s4\<lparr>fringe := []\<rparr>)) = [A, B, C, D]" using s4(5) by simp
  ultimately show ?thesis by blast
qed

lemma walk_fifo:
  assumes "walk lib func pred start w = Some r"
  shows "\<exists>taken rest. pushed_uris (trace (final_state r)) = taken @ rest
       \<and> (r = Inr (final_state r) \<longrightarrow> rest = [])
       \<and> fetched_uris (trace (final_state r)) = first_occurrences taken
       \<and> visited_uris (trace (final_state r))
           = filter (\<lambda>u. u \<in> set (good_uris (trace (final_state r)))) (first_occurrences taken)"
proof -
  let ?tr = "trace (final_state r)"
  from walk_final [OF assms] obtain taken rest where inv: "trace_inv pred (final_state r)"
    and t: "pushed_uris ?tr = taken @ rest" "fetched_uris ?tr = first_occurrences taken"
      "r = Inr (final_state r) \<longrightarrow> rest = []" by blast
  from inv have "distinct (fetched_uris ?tr)" by (simp add: trace_inv_def)
  from good_filter [OF this] trace_inv_visited [OF inv] t(2)
  have "visited_uris ?tr = filter (\<lambda>u. u \<in> set (good_uris ?tr)) (first_occurrences taken)"
    by simp
  with t show ?thesis by blast
qed

text \<open>
  Claim C7. The uris are fetched in the order in which they were first pushed onto the
  fringe: at the end of a call the fetched uris are the pushed uris taken from the front
  so far (all of them when the call returned) with repetitions dropped, and the uris the
  visitor was called for are, in that same order, those whose fetch was good. In
  particular, when A refers to B and C in this order, B and C each to D, and D to nothing
  new, with a visitor that does not throw, the call from A returns and the visitor has
  been called for A, B, C, D in this order.
\<close>

theorem walk_discovery_order:
  "(\<forall>r. walk lib func pred start w = Some r \<longrightarrow>
      (\<exists>taken rest. pushed_uris (trace (final_state r)) = taken @ rest
         \<and> (r = Inr (final_state r) \<longrightarrow> rest = [])
         \<and> fetched_uris (trace (final_state r)) = first_occurrences taken
         \<and> visited_uris (trace (final_state r))
             = filter (\<lambda>u. u \<in> set (good_uris (trace (final_state r)))) (first_occurrences taken)))
   \<and> (distinct [A, B, C, D] \<and> refers_to lib pred A [B, C] \<and> refers_to lib pred B [D]
        \<and> refers_to lib pred C [D] \<and> refers_within lib pred D {A, B, C, D} \<and> never_throws func
      \<longrightarrow> (\<exists>s. walk lib func pred A w = Some (Inr s) \<and> visited_uris (trace s) = [A, B, C, D]))"
  using walk_fifo [of lib func pred start w] walk_diamond [of A B C D lib pred func w] by blast

lemma diamond_calls:
  "rdf_web_parser_call diamond_web ''A'' [] w
     = (Inr (True, [example_triple ''A'' ''B'', example_triple ''A'' ''C'']), w)"
  "rdf_web_parser_call diamond_web ''B'' [] w = (Inr (True, [example_triple ''B'' ''D'']), w)"
  "rdf_web_parser_call diamond_web ''C'' [] w = (Inr (True, [example_triple ''C'' ''D'']), w)"
  "rdf_web_parser_call diamond_web ''D'' [] w = (Inr (True, []), w)"
  by (simp_all add: diamond_web_def example_web_def rdf_web_parser_call_def handle_statement_def
      make_rdf_term_def example_statement_def example_uri_term_def example_triple_def new_rdf_uri_def
      RAPTOR_TERM_TYPE_URI_def)

theorem walk_discovery_order_witness:
  "distinct [''A'', ''B'', ''C'', ''D'']
   \<and> refers_to (diamond_web :: string list raptor2) true_const_pred ''A'' [''B'', ''C'']
   \<and> refers_to (diamond_web :: string list raptor2) true_const_pred ''B'' [''D'']
   \<and> refers_to (diamond_web :: string list raptor2) true_const_pred ''C'' [''D'']
   \<and> refers_within (diamond_web :: string list raptor2) true_const_pred ''D'' {''A'', ''B'', ''C'', ''D''}
   \<and> never_throws store_uris
   \<and> (\<exists>s. walk (diamond_web :: string list raptor2) store_uris true_const_pred ''A'' [] = Some (Inr s)
         \<and> visited_uris (trace s) = [''A'', ''B'', ''C'', ''D''])
   \<and> map_option (\<lambda>r. (pushed_uris (trace (final_state r)), fetched_uris (trace (final_state r)),
                        world (final_state r)))
       (walk (diamond_web :: string list raptor2) store_uris true_const_pred ''A'' [])
     = Some ([''A'', ''B'', ''C'', ''D'', ''D''], [''A'', ''B'', ''C'', ''D''], [''A'', ''B'', ''C'', ''D''])"
proof -
  have h1: "distinct [''A'', ''B'', ''C'', ''D'']" by simp
  have h2: "refers_to (diamond_web :: string list raptor2) true_const_pred ''A'' [''B'', ''C'']"
    "refers_to (diamond_web :: string list raptor2) true_const_pred ''B'' [''D'']"
    "refers_to (diamond_web :: string list raptor2) true_const_pred ''C'' [''D'']"
    by (simp_all add: refers_to_def diamond_calls true_const_pred_def example_triple_def to_std_string_id)
  have h3: "refers_within (diamond_web :: string list raptor2) true_const_pred ''D'' {''A'', ''B'', ''C'', ''D''}"
    by (simp add: refers_within_def diamond_calls)
  have h4: "never_throws store_uris" by (simp add: never_throws_def store_uris_def)
  have run: "map_option (\<lambda>r. (pushed_uris (trace (final_state r)), fetched_uris (trace (final_state r)),
                        world (final_state r)))
       (walk (diamond_web :: string list raptor2) store_uris true_const_pred ''A'' [])
     = Some ([''A'', ''B'', ''C'', ''D'', ''D''], [''A'', ''B'', ''C'', ''D''], [''A'', ''B'', ''C'', ''D''])"
    by code_simp
  from walk_discovery_order [of "diamond_web :: string list raptor2" store_uris true_const_pred
      "''A''" "[]" "''A''" "''B''" "''C''" "''D''"] h1 h2 h3 h4
  have "\<exists>s. walk (diamond_web :: string list raptor2) store_uris true_const_pred ''A'' [] = Some (Inr s)
         \<and> visited_uris (trace s) = [''A'', ''B'', ''C'', ''D'']" by blast
  with h1 h2 h3 h4 run show ?thesis by blast
qed

end
